theory Spec2Isabelle
  imports Complex_Main "HOL-Library.Stream"
begin

section \<open>Python and numpy primitives used by the notebook\<close>

text \<open>
  The notebook \<^verbatim>\<open>Template-checkpoint.ipynb\<close> defines \<^verbatim>\<open>ExampleEnvironment\<close>,
  \<^verbatim>\<open>value_iteration\<close> and \<^verbatim>\<open>QLearningAgent\<close>. Python floats are modelled as
  real numbers (finite values), Python integers as \<open>int\<close>. The arithmetic on floats
  is exact, except in the section on the agent in floating-point arithmetic, where the
  rounding operations are a parameter. An exception is a value \<open>Inl e\<close> of a sum type.
\<close>

datatype error = IndexError | TypeError | ValueError

text \<open>
  \<^verbatim>\<open>xs[i]\<close> for an integer \<^verbatim>\<open>i\<close>, on a Python list and on a numpy array alike:
  an index in \<open>-len .. -1\<close> counts from the end, any other index outside
  \<open>0 .. len-1\<close> raises \<^verbatim>\<open>IndexError\<close>.
\<close>

definition getitem :: "'a list \<Rightarrow> int \<Rightarrow> error + 'a" where
  "getitem xs i =
     (if 0 \<le> i \<and> i < int (length xs) then Inr (xs ! nat i)
      else if - int (length xs) \<le> i \<and> i < 0 then Inr (xs ! nat (int (length xs) + i))
      else Inl IndexError)"

text \<open>
  The position an accepted index \<^verbatim>\<open>i\<close> denotes in a sequence of length \<open>n\<close>
  (used for item assignment, after the read of the same item has succeeded).
\<close>

definition norm_index :: "nat \<Rightarrow> int \<Rightarrow> nat" where
  "norm_index n i = (if 0 \<le> i then nat i else nat (int n + i))"

text \<open>
  \<^verbatim>\<open>np.random.RandomState\<close> belongs to numpy, not to the notebook. Its state is
  modelled as the stream of the raw numbers it is going to produce, one per call:
  a call reads the head and leaves the tail. \<^verbatim>\<open>random_sample()\<close> (and
  \<^verbatim>\<open>rand()\<close>) turns the raw number into a float with 53 random bits in \<open>[0, 1)\<close>,
  \<^verbatim>\<open>randint(n)\<close> into an integer in \<open>[0, n)\<close>. The constructors below take
  the generator as \<^verbatim>\<open>RandomState(seed)\<close> has seeded it.
\<close>

type_synonym random_state = "nat stream"

definition random_sample :: "random_state \<Rightarrow> real \<times> random_state" where
  "random_sample g = (real (shd g mod 2 ^ 53) / 2 ^ 53, stl g)"

definition randint :: "nat \<Rightarrow> random_state \<Rightarrow> error + int \<times> random_state" where
  "randint n g = (if n = 0 then Inl ValueError else Inr (int (shd g mod n), stl g))"

text \<open>
  \<^verbatim>\<open>choice(a)\<close> without \<^verbatim>\<open>p\<close>: the element at a uniformly drawn index;
  \<^verbatim>\<open>ValueError\<close> on an empty \<^verbatim>\<open>a\<close>.
\<close>

definition choice :: "'a list \<Rightarrow> random_state \<Rightarrow> error + 'a \<times> random_state" where
  "choice a g = (if a = [] then Inl ValueError else Inr (a ! (shd g mod length a), stl g))"

fun cumsum_from :: "real \<Rightarrow> real list \<Rightarrow> real list" where
  "cumsum_from acc [] = []"
| "cumsum_from acc (x # xs) = (acc + x) # cumsum_from (acc + x) xs"

definition cumsum :: "real list \<Rightarrow> real list" where
  "cumsum p = cumsum_from 0 p"

text \<open>
  \<^verbatim>\<open>cdf.searchsorted(u, side='right')\<close> on an ascending array: the number of
  leading entries that are \<open>\<le> u\<close>.
\<close>

definition searchsorted_right :: "real list \<Rightarrow> real \<Rightarrow> nat" where
  "searchsorted_right cdf u = length (takeWhile (\<lambda>c. c \<le> u) cdf)"

text \<open>
  \<^verbatim>\<open>choice(a, p=p)\<close>: numpy first validates \<^verbatim>\<open>p\<close> (same size as \<^verbatim>\<open>a\<close>,
  no negative entry, sum within \<open>sqrt(eps) = 2\<^sup>-\<^sup>2\<^sup>6\<close> of 1; \<^verbatim>\<open>ValueError\<close>
  otherwise, before any number is drawn), then inverts the normalised cumulative
  distribution at one \<^verbatim>\<open>random_sample()\<close>.
\<close>

definition atol :: real where
  "atol = 1 / 2 ^ 26"

definition choice_p :: "'a list \<Rightarrow> real list \<Rightarrow> random_state \<Rightarrow> error + 'a \<times> random_state" where
  "choice_p a p g =
     (if a = [] then Inl ValueError
      else if length p \<noteq> length a then Inl ValueError
      else if list_ex (\<lambda>x. x < 0) p then Inl ValueError
      else if \<bar>sum_list p - 1\<bar> > atol then Inl ValueError
      else
        let cdf = map (\<lambda>c. c / last (cumsum p)) (cumsum p);
            (u, g') = random_sample g;
            idx = searchsorted_right cdf u
        in Inr (a ! idx, g'))"

section \<open>ExampleEnvironment\<close>

record environment =
  grid :: "int list"
  rewards :: "real list list"
  tran_matrix :: "real list list"
  rand_generator :: random_state
  cur_loc :: "int option"

definition rewards_table :: "real list list" where
  "rewards_table = [[0, 0, 2], [0, 1, 0], [1, 1, 0], [2, 3 / 2, 3]]"

definition tran_matrix_table :: "real list list" where
  "tran_matrix_table =
     [[1 / 2, 1 / 2, 0, 0],
      [1 / 4, 1 / 4, 1 / 2, 0],
      [0, 1 / 4, 1 / 4, 1 / 2],
      [0, 0, 1 / 4, 3 / 4]]"

text \<open>
  \<^verbatim>\<open>__init__\<close> takes \<^verbatim>\<open>env_info\<close> only, of which it reads the seed of the generator;
  the grid and the two tables are the literals of the source, and \<^verbatim>\<open>cur_loc\<close> is
  \<^verbatim>\<open>None\<close>.
\<close>

definition ExampleEnvironment_init :: "random_state \<Rightarrow> environment" where
  "ExampleEnvironment_init g =
     \<lparr>grid = [0, 1, 2, 3], rewards = rewards_table, tran_matrix = tran_matrix_table,
      rand_generator = g, cur_loc = None\<rparr>"

text \<open>\<^verbatim>\<open>start\<close>: \<^verbatim>\<open>self.cur_loc = self.rand_generator.choice(self.grid)\<close>.\<close>

definition ExampleEnvironment_start :: "environment \<Rightarrow> error + int \<times> environment" where
  "ExampleEnvironment_start env =
     (case choice (grid env) (rand_generator env) of
        Inl e \<Rightarrow> Inl e
      | Inr (s, g') \<Rightarrow> Inr (s, env\<lparr>rand_generator := g', cur_loc := Some s\<rparr>))"

text \<open>
  \<^verbatim>\<open>step\<close>: the reward lookup \<^verbatim>\<open>self.rewards[self.cur_loc][action]\<close> comes first
  (\<^verbatim>\<open>TypeError\<close> when \<^verbatim>\<open>cur_loc\<close> is \<^verbatim>\<open>None\<close>), then the draw of the next state
  from row \<^verbatim>\<open>self.tran_matrix[self.cur_loc]\<close>. Every exception is raised before
  the first assignment, so a failed call leaves the object as it was.
\<close>

definition ExampleEnvironment_step ::
  "environment \<Rightarrow> int \<Rightarrow> error + (int \<times> real) \<times> environment" where
  "ExampleEnvironment_step env action =
     (case cur_loc env of
        None \<Rightarrow> Inl TypeError
      | Some s \<Rightarrow>
          (case getitem (rewards env) s of
             Inl e \<Rightarrow> Inl e
           | Inr row \<Rightarrow>
               (case getitem row action of
                  Inl e \<Rightarrow> Inl e
                | Inr next_reward \<Rightarrow>
                    (case getitem (tran_matrix env) s of
                       Inl e \<Rightarrow> Inl e
                     | Inr p \<Rightarrow>
                         (case choice_p (grid env) p (rand_generator env) of
                            Inl e \<Rightarrow> Inl e
                          | Inr (next_state, g') \<Rightarrow>
                              Inr ((next_state, next_reward),
                                   env\<lparr>rand_generator := g', cur_loc := Some next_state\<rparr>))))))"

section \<open>value_iteration\<close>

text \<open>
  \<^verbatim>\<open>value_iteration(theta, discount)\<close> builds \<^verbatim>\<open>ExampleEnvironment()\<close> and reads its
  \<^verbatim>\<open>grid\<close>, \<^verbatim>\<open>rewards\<close> and \<^verbatim>\<open>tran_matrix\<close>; the functions below take that
  environment as an argument. \<^verbatim>\<open>actions = list(np.arange(3))\<close>.
\<close>

definition actions :: "int list" where
  "actions = [0, 1, 2]"

text \<open>
  The inner loop \<^verbatim>\<open>for a in actions\<close>: the list \<^verbatim>\<open>vals\<close> of
  \<^verbatim>\<open>np.sum(env.tran_matrix[s] * (env.rewards[s][a] + discount * s_vals))\<close>.
  The product of the two arrays is elementwise; numpy raises \<^verbatim>\<open>ValueError\<close> when
  their lengths differ (both have four entries in every run of the notebook).
\<close>

fun action_values ::
  "environment \<Rightarrow> real \<Rightarrow> real list \<Rightarrow> int \<Rightarrow> int list \<Rightarrow> error + real list" where
  "action_values env discount s_vals s [] = Inr []"
| "action_values env discount s_vals s (a # as) =
     (case getitem (tran_matrix env) s of
        Inl e \<Rightarrow> Inl e
      | Inr p \<Rightarrow>
          (case getitem (rewards env) s of
             Inl e \<Rightarrow> Inl e
           | Inr rrow \<Rightarrow>
               (case getitem rrow a of
                  Inl e \<Rightarrow> Inl e
                | Inr r \<Rightarrow>
                    if length p \<noteq> length s_vals then Inl ValueError
                    else
                      (case action_values env discount s_vals s as of
                         Inl e \<Rightarrow> Inl e
                       | Inr vals \<Rightarrow>
                           Inr (sum_list (map2 (\<lambda>pr v. pr * (r + discount * v)) p s_vals) # vals)))))"

text \<open>
  The body of \<^verbatim>\<open>for s in env.grid\<close> on the pair \<^verbatim>\<open>(delta, s_vals)\<close>:
  \<^verbatim>\<open>cur_val = s_vals[s]\<close>, then \<^verbatim>\<open>s_vals[s] = np.max(vals)\<close> in place
  (\<^verbatim>\<open>np.max\<close> of an empty list raises \<^verbatim>\<open>ValueError\<close>), then
  \<^verbatim>\<open>delta = max(delta, abs(cur_val - s_vals[s]))\<close>.
\<close>

definition update_state ::
  "environment \<Rightarrow> real \<Rightarrow> real \<times> real list \<Rightarrow> int \<Rightarrow> error + real \<times> real list" where
  "update_state env discount st s =
     (case getitem (snd st) s of
        Inl e \<Rightarrow> Inl e
      | Inr cur_val \<Rightarrow>
          (case action_values env discount (snd st) s actions of
             Inl e \<Rightarrow> Inl e
           | Inr vals \<Rightarrow>
               if vals = [] then Inl ValueError
               else Inr (max (fst st) \<bar>cur_val - Max (set vals)\<bar>,
                         (snd st)[norm_index (length (snd st)) s := Max (set vals)])))"

text \<open>The loop \<^verbatim>\<open>for s in env.grid\<close>, over any list of states.\<close>

fun sweep_states ::
  "environment \<Rightarrow> real \<Rightarrow> real \<times> real list \<Rightarrow> int list \<Rightarrow> error + real \<times> real list" where
  "sweep_states env discount st [] = Inr st"
| "sweep_states env discount st (s # ss) =
     (case update_state env discount st s of
        Inl e \<Rightarrow> Inl e
      | Inr st' \<Rightarrow> sweep_states env discount st' ss)"

text \<open>
  \<^verbatim>\<open>while delta > theta\<close>: each pass resets \<^verbatim>\<open>delta\<close> to 0 and sweeps the grid.
  The loop need not terminate; \<open>None\<close> stands for a run that does not return,
  \<open>Some (Inl e)\<close> for an exception, \<open>Some (Inr s_vals)\<close> for the returned table.
\<close>

partial_function (option) vi_while ::
  "environment \<Rightarrow> real \<Rightarrow> real \<Rightarrow> real \<times> real list \<Rightarrow> (error + real list) option" where
  "vi_while env theta discount st =
     (if fst st > theta
      then (case sweep_states env discount (0, snd st) (grid env) of
              Inl e \<Rightarrow> Some (Inl e)
            | Inr st' \<Rightarrow> vi_while env theta discount st')
      else Some (Inr (snd st)))"

text \<open>
  \<^verbatim>\<open>value_iteration\<close>: \<^verbatim>\<open>delta = theta * 10\<close>, \<^verbatim>\<open>s_vals = np.zeros(4)\<close>. The
  argument \<open>g\<close> is the generator of the environment it builds, which it never draws
  from.
\<close>

definition value_iteration :: "random_state \<Rightarrow> real \<Rightarrow> real \<Rightarrow> (error + real list) option" where
  "value_iteration g theta discount =
     vi_while (ExampleEnvironment_init g) theta discount (theta * 10, replicate 4 0)"

text \<open>The table \<^verbatim>\<open>s_vals\<close> after \<open>n\<close> passes of the \<^verbatim>\<open>while\<close> body.\<close>

fun vi_iter :: "environment \<Rightarrow> real \<Rightarrow> nat \<Rightarrow> error + real list" where
  "vi_iter env discount 0 = Inr (replicate 4 0)"
| "vi_iter env discount (Suc n) =
     (case vi_iter env discount n of
        Inl e \<Rightarrow> Inl e
      | Inr v \<Rightarrow>
          (case sweep_states env discount (0, v) (grid env) of
             Inl e \<Rightarrow> Inl e
           | Inr st \<Rightarrow> Inr (snd st)))"

section \<open>QLearningAgent\<close>

text \<open>
  The fields of the class. The generator field carries a suffix, the environment record
  having a field of the same name.
\<close>

record agent =
  num_actions :: nat
  num_states :: nat
  discount :: real
  step_size :: real
  epsilon :: real
  delta :: real
  rand_generator_agent :: random_state
  q :: "real list list"
  prev_state :: "int option"
  prev_action :: "int option"

text \<open>
  \<^verbatim>\<open>uniform(low, high, (rows, cols))\<close>: one \<^verbatim>\<open>random_sample()\<close> per entry, scaled
  to \<open>[low, high)\<close>, filled row by row.
\<close>

definition uniform :: "real \<Rightarrow> real \<Rightarrow> random_state \<Rightarrow> real \<times> random_state" where
  "uniform low high g = (let (u, g') = random_sample g in (low + (high - low) * u, g'))"

fun uniform_row :: "real \<Rightarrow> real \<Rightarrow> nat \<Rightarrow> random_state \<Rightarrow> real list \<times> random_state" where
  "uniform_row low high 0 g = ([], g)"
| "uniform_row low high (Suc n) g =
     (let (x, g') = uniform low high g; (xs, g'') = uniform_row low high n g' in (x # xs, g''))"

fun uniform_table ::
  "real \<Rightarrow> real \<Rightarrow> nat \<Rightarrow> nat \<Rightarrow> random_state \<Rightarrow> real list list \<times> random_state" where
  "uniform_table low high 0 cols g = ([], g)"
| "uniform_table low high (Suc m) cols g =
     (let (r, g') = uniform_row low high cols g; (rs, g'') = uniform_table low high m cols g'
      in (r # rs, g''))"

text \<open>
  \<^verbatim>\<open>agent_info.get(key, default)\<close> on the dictionary of numeric settings. The
  \<^verbatim>\<open>"seed"\<close> entry only selects the generator, which the constructor takes as seeded.
\<close>

definition get_default :: "(string \<rightharpoonup> real) \<Rightarrow> string \<Rightarrow> real \<Rightarrow> real" where
  "get_default info k d = (case info k of None \<Rightarrow> d | Some v \<Rightarrow> v)"

definition QLearningAgent_init :: "(string \<rightharpoonup> real) \<Rightarrow> random_state \<Rightarrow> agent" where
  "QLearningAgent_init agent_info g =
     (let (tbl, g') = uniform_table 0 (1 / 10) 4 3 g in
      \<lparr>num_actions = 3, num_states = 4,
       discount = get_default agent_info ''discount'' (9 / 10),
       step_size = get_default agent_info ''step_size'' (1 / 10),
       epsilon = get_default agent_info ''epsilon'' (1 / 10),
       delta = get_default agent_info ''delta'' (1 / 100),
       rand_generator_agent = g', q = tbl, prev_state = None, prev_action = None\<rparr>)"

text \<open>
  \<^verbatim>\<open>argmax\<close>. The running maximum \<^verbatim>\<open>top\<close> starts at \<^verbatim>\<open>float("-inf")\<close>, which
  is \<open>None\<close> here: every Q-value is above it and none is equal to it.
  \<open>argmax_step\<close> is the loop body for index \<open>i\<close>, \<open>argmax_scan\<close> the loop over
  \<^verbatim>\<open>range(len(q_values))\<close>, and \<open>argmax\<close> ends with
  \<^verbatim>\<open>self.rand_generator.choice(ties)\<close>.
\<close>

fun argmax_step :: "real list \<Rightarrow> real option \<times> nat list \<Rightarrow> nat \<Rightarrow> real option \<times> nat list" where
  "argmax_step q_values (top0, ties) i =
     (let (top1, ties1) =
            (if (case top0 of None \<Rightarrow> True | Some t \<Rightarrow> q_values ! i > t)
             then (Some (q_values ! i), []) else (top0, ties))
      in if top1 = Some (q_values ! i) then (top1, ties1 @ [i]) else (top1, ties1))"

definition argmax_scan :: "real list \<Rightarrow> real option \<times> nat list" where
  "argmax_scan q_values = foldl (argmax_step q_values) (None, []) [0..<length q_values]"

definition argmax :: "real list \<Rightarrow> random_state \<Rightarrow> error + int \<times> random_state" where
  "argmax q_values g =
     (case choice (snd (argmax_scan q_values)) g of
        Inl e \<Rightarrow> Inl e
      | Inr (i, g') \<Rightarrow> Inr (int i, g'))"

text \<open>
  The action selection that \<^verbatim>\<open>start\<close> and \<^verbatim>\<open>step\<close> both begin with:
  \<^verbatim>\<open>rand() < epsilon\<close> chooses between \<^verbatim>\<open>randint(num_actions)\<close> and
  \<^verbatim>\<open>argmax(current_q)\<close>. The second component is the generator after the draws
  (an exception of the second call leaves the first draw consumed).
\<close>

definition epsilon_greedy :: "agent \<Rightarrow> real list \<Rightarrow> (error + int) \<times> random_state" where
  "epsilon_greedy a current_q =
     (let (u, g1) = random_sample (rand_generator_agent a) in
      if u < epsilon a
      then (case randint (num_actions a) g1 of
              Inl e \<Rightarrow> (Inl e, g1)
            | Inr (action, g2) \<Rightarrow> (Inr action, g2))
      else (case argmax current_q g1 of
              Inl e \<Rightarrow> (Inl e, g1)
            | Inr (action, g2) \<Rightarrow> (Inr action, g2)))"

text \<open>
  \<^verbatim>\<open>start\<close>: reads the row \<^verbatim>\<open>self.q[state]\<close>, selects the action and records
  \<^verbatim>\<open>prev_state\<close> and \<^verbatim>\<open>prev_action\<close>. The result is the returned action (or the
  exception) together with the agent as the call leaves it.
\<close>

definition QLearningAgent_start :: "agent \<Rightarrow> int \<Rightarrow> (error + int) \<times> agent" where
  "QLearningAgent_start a state =
     (case getitem (q a) state of
        Inl e \<Rightarrow> (Inl e, a)
      | Inr current_q \<Rightarrow>
          (case epsilon_greedy a current_q of
             (Inl e, g') \<Rightarrow> (Inl e, a\<lparr>rand_generator_agent := g'\<rparr>)
           | (Inr action, g') \<Rightarrow>
               (Inr action,
                a\<lparr>rand_generator_agent := g', prev_state := Some state, prev_action := Some action\<rparr>)))"

text \<open>
  \<^verbatim>\<open>self.q[i, j]\<close> on the two-dimensional array, for integers \<^verbatim>\<open>i\<close> and \<^verbatim>\<open>j\<close>.
\<close>

definition getitem2 :: "real list list \<Rightarrow> int \<Rightarrow> int \<Rightarrow> error + real" where
  "getitem2 tbl i j = (case getitem tbl i of Inl e \<Rightarrow> Inl e | Inr row \<Rightarrow> getitem row j)"

text \<open>\<^verbatim>\<open>self.q[i, j] = v\<close>, after \<^verbatim>\<open>self.q[i, j]\<close> has been read.\<close>

definition setitem2 :: "real list list \<Rightarrow> int \<Rightarrow> int \<Rightarrow> real \<Rightarrow> real list list" where
  "setitem2 tbl i j v =
     (let r = norm_index (length tbl) i; c = norm_index (length (tbl ! r)) j
      in tbl[r := (tbl ! r)[c := v]])"

text \<open>
  The candidate \<^verbatim>\<open>val\<close> for one action, \<open>x\<close> being \<^verbatim>\<open>self.q[state, act]\<close>, and the
  loop \<^verbatim>\<open>for act in range(self.num_actions)\<close> with its running maximum
  \<^verbatim>\<open>new_val\<close>; \<open>row\<close> is \<^verbatim>\<open>self.q[state]\<close>.
\<close>

definition td_value :: "agent \<Rightarrow> real \<Rightarrow> real \<Rightarrow> real \<Rightarrow> real" where
  "td_value a cur_val reward x = cur_val + step_size a * (reward + discount a * x - cur_val)"

fun max_over_actions ::
  "agent \<Rightarrow> real \<Rightarrow> real \<Rightarrow> real list \<Rightarrow> nat list \<Rightarrow> real \<Rightarrow> error + real" where
  "max_over_actions a cur_val reward row [] new_val = Inr new_val"
| "max_over_actions a cur_val reward row (act # acts) new_val =
     (case getitem row (int act) of
        Inl e \<Rightarrow> Inl e
      | Inr x \<Rightarrow> max_over_actions a cur_val reward row acts (max new_val (td_value a cur_val reward x)))"

text \<open>
  \<^verbatim>\<open>step\<close>. The row \<^verbatim>\<open>self.q[state]\<close> is read first (\<^verbatim>\<open>IndexError\<close> before
  anything is changed), then the action is chosen, which advances the generator.
  With \<^verbatim>\<open>prev_state\<close> and \<^verbatim>\<open>prev_action\<close> still \<^verbatim>\<open>None\<close>,
  \<^verbatim>\<open>self.q[None, None]\<close> is an array with new axes and \<^verbatim>\<open>max(new_val, val)\<close>
  raises \<^verbatim>\<open>ValueError\<close> on its truth value. The running maximum starts at
  \<^verbatim>\<open>-1e8\<close>. The method assigns neither \<^verbatim>\<open>self.prev_state\<close> nor
  \<^verbatim>\<open>self.prev_action\<close>. The result is the returned pair (or the exception)
  together with the agent as the call leaves it.
\<close>

definition QLearningAgent_step :: "agent \<Rightarrow> int \<Rightarrow> real \<Rightarrow> (error + int \<times> bool) \<times> agent" where
  "QLearningAgent_step a state reward =
     (case getitem (q a) state of
        Inl e \<Rightarrow> (Inl e, a)
      | Inr current_q \<Rightarrow>
          (case epsilon_greedy a current_q of
             (Inl e, g') \<Rightarrow> (Inl e, a\<lparr>rand_generator_agent := g'\<rparr>)
           | (Inr action, g') \<Rightarrow>
               (case (prev_state a, prev_action a) of
                  (Some ps, Some pa) \<Rightarrow>
                    (case getitem2 (q a) ps pa of
                       Inl e \<Rightarrow> (Inl e, a\<lparr>rand_generator_agent := g'\<rparr>)
                     | Inr cur_val \<Rightarrow>
                         (case max_over_actions a cur_val reward current_q
                                 [0..<num_actions a] (- 100000000) of
                            Inl e \<Rightarrow> (Inl e, a\<lparr>rand_generator_agent := g'\<rparr>)
                          | Inr new_val \<Rightarrow>
                              (Inr (action, \<bar>new_val - cur_val\<bar> < delta a),
                               a\<lparr>rand_generator_agent := g',
                                 q := setitem2 (q a) ps pa new_val\<rparr>)))
                | _ \<Rightarrow> (Inl ValueError, a\<lparr>rand_generator_agent := g'\<rparr>))))"

text \<open>
  The update rule as the specification words it, for comparison with the loop above:
  \<^verbatim>\<open>cur + alpha * (reward + gamma * max_a' Q(state, a') - cur)\<close>.
\<close>

definition spec_update :: "agent \<Rightarrow> real \<Rightarrow> real \<Rightarrow> real list \<Rightarrow> real" where
  "spec_update a cur reward row =
     cur + step_size a * (reward + discount a * Max (set row) - cur)"

section \<open>QLearningAgent in floating-point arithmetic\<close>

text \<open>
  Python floats are IEEE doubles, a subset of the reals. On doubles, comparison,
  \<^verbatim>\<open>abs\<close> and \<^verbatim>\<open>max\<close> are exact, while \<^verbatim>\<open>+\<close>, \<^verbatim>\<open>-\<close> and \<^verbatim>\<open>*\<close> round their
  result. The three rounding operations belong to the Python runtime; the definitions
  below take them as a parameter \<open>ar\<close> and otherwise repeat the constructor and
  \<^verbatim>\<open>step\<close> expression by expression. With \<open>exact_arith\<close> (no rounding) they are the
  definitions of the previous section.
\<close>

record arith =
  fl_add :: "real \<Rightarrow> real \<Rightarrow> real"
  fl_sub :: "real \<Rightarrow> real \<Rightarrow> real"
  fl_mul :: "real \<Rightarrow> real \<Rightarrow> real"

definition exact_arith :: arith where
  "exact_arith = \<lparr>fl_add = (+), fl_sub = (-), fl_mul = (*)\<rparr>"

text \<open>\<^verbatim>\<open>uniform\<close>: \<^verbatim>\<open>low + (high - low) * random_sample()\<close> per entry.\<close>

definition uniform_fl :: "arith \<Rightarrow> real \<Rightarrow> real \<Rightarrow> random_state \<Rightarrow> real \<times> random_state" where
  "uniform_fl ar low high g =
     (let (u, g') = random_sample g in (fl_add ar low (fl_mul ar (fl_sub ar high low) u), g'))"

fun uniform_row_fl ::
  "arith \<Rightarrow> real \<Rightarrow> real \<Rightarrow> nat \<Rightarrow> random_state \<Rightarrow> real list \<times> random_state" where
  "uniform_row_fl ar low high 0 g = ([], g)"
| "uniform_row_fl ar low high (Suc n) g =
     (let (x, g') = uniform_fl ar low high g; (xs, g'') = uniform_row_fl ar low high n g'
      in (x # xs, g''))"

fun uniform_table_fl ::
  "arith \<Rightarrow> real \<Rightarrow> real \<Rightarrow> nat \<Rightarrow> nat \<Rightarrow> random_state \<Rightarrow> real list list \<times> random_state" where
  "uniform_table_fl ar low high 0 cols g = ([], g)"
| "uniform_table_fl ar low high (Suc m) cols g =
     (let (r, g') = uniform_row_fl ar low high cols g;
          (rs, g'') = uniform_table_fl ar low high m cols g'
      in (r # rs, g''))"

definition QLearningAgent_init_fl :: "arith \<Rightarrow> (string \<rightharpoonup> real) \<Rightarrow> random_state \<Rightarrow> agent" where
  "QLearningAgent_init_fl ar agent_info g =
     (let (tbl, g') = uniform_table_fl ar 0 (1 / 10) 4 3 g in
      \<lparr>num_actions = 3, num_states = 4,
       discount = get_default agent_info ''discount'' (9 / 10),
       step_size = get_default agent_info ''step_size'' (1 / 10),
       epsilon = get_default agent_info ''epsilon'' (1 / 10),
       delta = get_default agent_info ''delta'' (1 / 100),
       rand_generator_agent = g', q = tbl, prev_state = None, prev_action = None\<rparr>)"

text \<open>
  The candidate
  \<^verbatim>\<open>val = cur_val + self.step_size * (reward + self.discount * self.q[state, act] - cur_val)\<close>
  with the operations in the order Python evaluates them, and the loop over the actions.
\<close>

definition td_value_fl :: "arith \<Rightarrow> agent \<Rightarrow> real \<Rightarrow> real \<Rightarrow> real \<Rightarrow> real" where
  "td_value_fl ar a cur_val reward x =
     fl_add ar cur_val
       (fl_mul ar (step_size a)
          (fl_sub ar (fl_add ar reward (fl_mul ar (discount a) x)) cur_val))"

fun max_over_actions_fl ::
  "arith \<Rightarrow> agent \<Rightarrow> real \<Rightarrow> real \<Rightarrow> real list \<Rightarrow> nat list \<Rightarrow> real \<Rightarrow> error + real" where
  "max_over_actions_fl ar a cur_val reward row [] new_val = Inr new_val"
| "max_over_actions_fl ar a cur_val reward row (act # acts) new_val =
     (case getitem row (int act) of
        Inl e \<Rightarrow> Inl e
      | Inr x \<Rightarrow>
          max_over_actions_fl ar a cur_val reward row acts
            (max new_val (td_value_fl ar a cur_val reward x)))"

text \<open>
  \<^verbatim>\<open>step\<close>, statement by statement as \<open>QLearningAgent_step\<close> above; the test is
  \<^verbatim>\<open>abs(new_val - cur_val) < self.delta\<close> with the rounded subtraction.
\<close>

definition QLearningAgent_step_fl ::
  "arith \<Rightarrow> agent \<Rightarrow> int \<Rightarrow> real \<Rightarrow> (error + int \<times> bool) \<times> agent" where
  "QLearningAgent_step_fl ar a state reward =
     (case getitem (q a) state of
        Inl e \<Rightarrow> (Inl e, a)
      | Inr current_q \<Rightarrow>
          (case epsilon_greedy a current_q of
             (Inl e, g') \<Rightarrow> (Inl e, a\<lparr>rand_generator_agent := g'\<rparr>)
           | (Inr action, g') \<Rightarrow>
               (case (prev_state a, prev_action a) of
                  (Some ps, Some pa) \<Rightarrow>
                    (case getitem2 (q a) ps pa of
                       Inl e \<Rightarrow> (Inl e, a\<lparr>rand_generator_agent := g'\<rparr>)
                     | Inr cur_val \<Rightarrow>
                         (case max_over_actions_fl ar a cur_val reward current_q
                                 [0..<num_actions a] (- 100000000) of
                            Inl e \<Rightarrow> (Inl e, a\<lparr>rand_generator_agent := g'\<rparr>)
                          | Inr new_val \<Rightarrow>
                              (Inr (action, \<bar>fl_sub ar new_val cur_val\<bar> < delta a),
                               a\<lparr>rand_generator_agent := g',
                                 q := setitem2 (q a) ps pa new_val\<rparr>)))
                | _ \<Rightarrow> (Inl ValueError, a\<lparr>rand_generator_agent := g'\<rparr>))))"

section \<open>Reachable objects, invariants and concrete instances\<close>

text \<open>A generator whose raw numbers are all 0, for concrete runs.\<close>

definition zeros :: random_state where
  "zeros = sconst 0"

text \<open>
  The environments the class can be in: built by the constructor, then driven by any
  sequence of \<^verbatim>\<open>start\<close> and \<^verbatim>\<open>step\<close> calls (a call that raises leaves the object
  unchanged).
\<close>

inductive env_reachable :: "environment \<Rightarrow> bool" where
  constructed: "env_reachable (ExampleEnvironment_init g)"
| started: "env_reachable env \<Longrightarrow> ExampleEnvironment_start env = Inr (s, env') \<Longrightarrow> env_reachable env'"
| stepped: "env_reachable env \<Longrightarrow> ExampleEnvironment_step env a = Inr (out, env') \<Longrightarrow> env_reachable env'"

text \<open>
  The environment with generator \<open>g\<close> whose current state is \<open>s\<close>, as
  \<^verbatim>\<open>start()\<close> leaves it when it draws \<open>s\<close>.
\<close>

definition started_at :: "int \<Rightarrow> random_state \<Rightarrow> environment" where
  "started_at s g = (ExampleEnvironment_init g)\<lparr>cur_loc := Some s\<rparr>"

text \<open>
  What no method changes: the three tables are the literals of the constructor, and the
  current state, once set, is one of 0..3.
\<close>

definition env_inv :: "environment \<Rightarrow> bool" where
  "env_inv env \<longleftrightarrow>
     grid env = [0, 1, 2, 3] \<and> rewards env = rewards_table \<and> tran_matrix env = tran_matrix_table \<and>
     (case cur_loc env of None \<Rightarrow> True | Some s \<Rightarrow> 0 \<le> s \<and> s < 4)"

text \<open>
  What the constructor establishes and the methods keep: three actions, a table of four
  rows of three entries, and a memory that is either unset or a pair of a row index the
  array accepts and an action in 0..2.
\<close>

definition agent_inv :: "agent \<Rightarrow> bool" where
  "agent_inv a \<longleftrightarrow>
     num_actions a = 3 \<and> length (q a) = 4 \<and> list_all (\<lambda>row. length row = 3) (q a) \<and>
     (case (prev_state a, prev_action a) of
        (Some ps, Some pa) \<Rightarrow> - 4 \<le> ps \<and> ps < 4 \<and> 0 \<le> pa \<and> pa < 3
      | (None, None) \<Rightarrow> True
      | _ \<Rightarrow> False)"

text \<open>
  The agents the class can be in: built by the constructor, then driven by any sequence
  of \<^verbatim>\<open>start\<close> and \<^verbatim>\<open>step\<close> calls, failed ones included.
\<close>

inductive agent_reachable :: "agent \<Rightarrow> bool" where
  constructed: "agent_reachable (QLearningAgent_init agent_info g)"
| started: "agent_reachable a \<Longrightarrow> QLearningAgent_start a state = (out, a') \<Longrightarrow> agent_reachable a'"
| stepped: "agent_reachable a \<Longrightarrow> QLearningAgent_step a state reward = (res, a') \<Longrightarrow> agent_reachable a'"

text \<open>
  Concrete agents: \<open>agent_zero\<close> is built with the default settings from the all-zero
  generator (its table is all zero), \<open>agent_started\<close> is \<open>agent_zero\<close> after
  \<^verbatim>\<open>start(0)\<close>, which selects action 0.
\<close>

definition zero_table :: "real list list" where
  "zero_table = [[0, 0, 0], [0, 0, 0], [0, 0, 0], [0, 0, 0]]"

definition agent_zero :: agent where
  "agent_zero = QLearningAgent_init Map.empty zeros"

definition agent_started :: agent where
  "agent_started =
     \<lparr>num_actions = 3, num_states = 4, discount = 9 / 10, step_size = 1 / 10, epsilon = 1 / 10,
      delta = 1 / 100, rand_generator_agent = zeros, q = zero_table,
      prev_state = Some 0, prev_action = Some 0\<rparr>"

text \<open>\<open>agent_started\<close> after \<^verbatim>\<open>step(1, 1)\<close>.\<close>

definition agent_stepped :: agent where
  "agent_stepped = agent_started\<lparr>q := [[1 / 10, 0, 0], [0, 0, 0], [0, 0, 0], [0, 0, 0]]\<rparr>"

text \<open>
  The models the monotonicity result is about: the grid 0..3, four rows of three
  non-negative rewards, four rows of four non-negative transition weights.
\<close>

definition vi_model_ok :: "environment \<Rightarrow> bool" where
  "vi_model_ok env \<longleftrightarrow>
     grid env = [0, 1, 2, 3] \<and>
     length (rewards env) = 4 \<and>
     list_all (\<lambda>row. length row = 3 \<and> list_all (\<lambda>r. 0 \<le> r) row) (rewards env) \<and>
     length (tran_matrix env) = 4 \<and>
     list_all (\<lambda>row. length row = 4 \<and> list_all (\<lambda>p. 0 \<le> p) row) (tran_matrix env)"

text \<open>
  The value \<^verbatim>\<open>np.max(vals)\<close> that a sweep assigns to state \<open>s\<close> from the table
  \<open>v\<close>, and the invariant of the sweeps: no entry of the table lies above it.
\<close>

definition backup :: "environment \<Rightarrow> real \<Rightarrow> real list \<Rightarrow> nat \<Rightarrow> real" where
  "backup env gam v s =
     Max (set (map (\<lambda>a. sum_list (map2 (\<lambda>pr x. pr * (rewards env ! s ! a + gam * x))
                                      (tran_matrix env ! s) v))
                   [0, 1, 2]))"

definition vi_inv :: "environment \<Rightarrow> real \<Rightarrow> real list \<Rightarrow> bool" where
  "vi_inv env gam v \<longleftrightarrow> length v = 4 \<and> (\<forall>s<4. v ! s \<le> backup env gam v s)"

text \<open>
  The agents the class can be in when its arithmetic is \<open>ar\<close>: built by the
  constructor, then driven by any sequence of \<^verbatim>\<open>start\<close> and \<^verbatim>\<open>step\<close> calls, failed
  ones included.
\<close>

inductive agent_reachable_fl :: "arith \<Rightarrow> agent \<Rightarrow> bool" where
  constructed: "agent_reachable_fl ar (QLearningAgent_init_fl ar agent_info g)"
| started: "agent_reachable_fl ar a \<Longrightarrow> QLearningAgent_start a state = (out, a') \<Longrightarrow>
            agent_reachable_fl ar a'"
| stepped: "agent_reachable_fl ar a \<Longrightarrow> QLearningAgent_step_fl ar a state reward = (res, a') \<Longrightarrow>
            agent_reachable_fl ar a'"

text \<open>
  A concrete agent whose settings are dyadic, so that no operation of the runs below
  rounds: discount, step size and epsilon 1/2, delta 1/4, built from the all-zero
  generator; \<open>agent_dyadic\<close> is that agent after \<^verbatim>\<open>start(0)\<close>, which selects action 0.
\<close>

definition dyadic_info :: "string \<rightharpoonup> real" where
  "dyadic_info =
     [''discount'' \<mapsto> 1 / 2, ''step_size'' \<mapsto> 1 / 2, ''epsilon'' \<mapsto> 1 / 2, ''delta'' \<mapsto> 1 / 4]"

definition agent_dyadic :: agent where
  "agent_dyadic =
     \<lparr>num_actions = 3, num_states = 4, discount = 1 / 2, step_size = 1 / 2, epsilon = 1 / 2,
      delta = 1 / 4, rand_generator_agent = zeros, q = zero_table,
      prev_state = Some 0, prev_action = Some 0\<rparr>"

text \<open>
  An agent after \<^verbatim>\<open>start(0)\<close> whose settings are the doubles that Python reads from
  the literals \<^verbatim>\<open>0.9\<close> (discount), \<^verbatim>\<open>0.7\<close> (step size) and \<^verbatim>\<open>0.07\<close> (delta).
\<close>

definition agent_doubles :: agent where
  "agent_doubles =
     \<lparr>num_actions = 3, num_states = 4,
      discount = 8106479329266893 / 2 ^ 53, step_size = 3152519739159347 / 2 ^ 52,
      epsilon = 1 / 2, delta = 1261007895663739 / 2 ^ 54,
      rand_generator_agent = zeros, q = zero_table,
      prev_state = Some 0, prev_action = Some 0\<rparr>"

lemma shd_zeros [simp]: "shd zeros = 0"
  by (simp add: zeros_def)

lemma stl_zeros [simp]: "stl zeros = zeros"
  by (simp add: zeros_def)

section \<open>The primitives\<close>

lemma getitem_nat: "i < length xs \<Longrightarrow> getitem xs (int i) = Inr (xs ! i)"
  by (simp add: getitem_def)

lemma random_sample_range: "0 \<le> fst (random_sample g) \<and> fst (random_sample g) < 1"
  by (simp add: random_sample_def)

lemma length_cumsum_from: "length (cumsum_from acc xs) = length xs"
  by (induction xs arbitrary: acc) auto

lemma nth_cumsum_from: "i < length xs \<Longrightarrow> cumsum_from acc xs ! i = acc + sum_list (take (Suc i) xs)"
proof (induction xs arbitrary: acc i)
  case Nil then show ?case by simp
next
  case (Cons x xs)
  then show ?case by (cases i) auto
qed

lemma last_cumsum_from: "xs \<noteq> [] \<Longrightarrow> last (cumsum_from acc xs) = acc + sum_list xs"
proof (induction xs arbitrary: acc)
  case Nil then show ?case by simp
next
  case (Cons x xs)
  then show ?case by (cases xs) auto
qed

lemma searchsorted_right_less:
  assumes "cdf \<noteq> []" "u < last cdf"
  shows "searchsorted_right cdf u < length cdf"
proof -
  have "last cdf \<in> set cdf" using assms by simp
  moreover have "\<not> last cdf \<le> u" using assms by simp
  ultimately have "\<exists>c\<in>set cdf. \<not> c \<le> u" by blast
  then have "length (takeWhile (\<lambda>c. c \<le> u) cdf) < length cdf"
  proof -
    have "takeWhile (\<lambda>c. c \<le> u) cdf \<noteq> cdf"
      using \<open>\<exists>c\<in>set cdf. \<not> c \<le> u\<close> by (simp add: takeWhile_eq_all_conv)
    then have "length (takeWhile (\<lambda>c. c \<le> u) cdf) \<noteq> length cdf"
      using takeWhile_eq_take[of "\<lambda>c. c \<le> u" cdf] by auto
    then show ?thesis using length_takeWhile_le[of "\<lambda>c. c \<le> u" cdf] by linarith
  qed
  then show ?thesis by (simp add: searchsorted_right_def)
qed

lemma searchsorted_right_stop:
  assumes "searchsorted_right cdf u < length cdf"
  shows "u < cdf ! searchsorted_right cdf u"
  using assms nth_length_takeWhile[of "\<lambda>c. c \<le> u" cdf] by (simp add: searchsorted_right_def)

lemma searchsorted_right_before:
  assumes "j < searchsorted_right cdf u"
  shows "cdf ! j \<le> u"
proof -
  have "takeWhile (\<lambda>c. c \<le> u) cdf ! j \<in> set (takeWhile (\<lambda>c. c \<le> u) cdf)"
    using assms by (simp add: searchsorted_right_def)
  then have "takeWhile (\<lambda>c. c \<le> u) cdf ! j \<le> u" by (meson set_takeWhileD)
  then show ?thesis using assms by (simp add: searchsorted_right_def takeWhile_nth)
qed

lemma sum_list_take_Suc:
  "i < length (p::real list) \<Longrightarrow> sum_list (take (Suc i) p) = sum_list (take i p) + p ! i"
  by (simp add: take_Suc_conv_app_nth)

lemma choice_p_valid:
  fixes g :: random_state and p :: "real list"
  assumes a: "a \<noteq> []" and len: "length p = length a"
    and nonneg: "\<not> list_ex (\<lambda>x. x < 0) p" and tol: "\<bar>sum_list p - 1\<bar> \<le> atol"
  defines "idx \<equiv> searchsorted_right (map (\<lambda>c. c / sum_list p) (cumsum p)) (fst (random_sample g))"
  shows "choice_p a p g = Inr (a ! idx, stl g)" and "idx < length a" and "0 < p ! idx"
proof -
  let ?S = "sum_list p"
  let ?u = "fst (random_sample g)"
  let ?cdf = "map (\<lambda>c. c / ?S) (cumsum p)"
  have p: "p \<noteq> []" using a len by auto
  have "atol < 1" by (simp add: atol_def)
  then have S: "0 < ?S" using tol by linarith
  have lastc: "last (cumsum p) = ?S" using p by (simp add: cumsum_def last_cumsum_from)
  have ne: "?cdf \<noteq> []" using p by (simp add: cumsum_def) (metis length_cumsum_from length_0_conv)
  have "last ?cdf = last (cumsum p) / ?S" using ne by (simp add: last_map)
  then have last1: "last ?cdf = 1" using S lastc by simp
  have u: "0 \<le> ?u" "?u < 1" using random_sample_range[of g] by auto
  have lt: "idx < length ?cdf" unfolding idx_def
    by (rule searchsorted_right_less[OF ne]) (simp only: last1 u)
  then show il: "idx < length a" by (simp add: cumsum_def length_cumsum_from len)
  show "choice_p a p g = Inr (a ! idx, stl g)"
    using a len nonneg tol lastc
    by (simp add: choice_p_def idx_def Let_def random_sample_def split_def not_less)
  have ip: "idx < length p" using il len by simp
  have nth: "\<And>j. j < length p \<Longrightarrow> ?cdf ! j = sum_list (take (Suc j) p) / ?S"
    by (simp add: cumsum_def length_cumsum_from nth_cumsum_from)
  have stop: "?u < ?cdf ! idx"
    using searchsorted_right_stop[of ?cdf ?u] lt by (simp add: idx_def)
  show "0 < p ! idx"
  proof (cases idx)
    case 0
    then have "?u < p ! 0 / ?S" using stop nth[of 0] ip sum_list_take_Suc[of 0 p] by simp
    then have "0 < p ! 0 / ?S" using u by linarith
    then show ?thesis using S 0 by (simp add: zero_less_divide_iff)
  next
    case (Suc j)
    have "?cdf ! j \<le> ?u"
      by (rule searchsorted_right_before) (simp add: idx_def[symmetric] Suc)
    then have "?cdf ! j < ?cdf ! idx" using stop by linarith
    then have "sum_list (take (Suc j) p) / ?S < sum_list (take (Suc idx) p) / ?S"
      using nth[of j] nth[of idx] ip Suc by simp
    then have "sum_list (take (Suc j) p) < sum_list (take (Suc idx) p)"
      using S by (simp add: divide_less_cancel)
    then show ?thesis using sum_list_take_Suc[of idx p] ip Suc by simp
  qed
qed

section \<open>ExampleEnvironment: every reachable environment is well formed\<close>

lemma state_cases: "0 \<le> s \<Longrightarrow> s < 4 \<Longrightarrow> s = 0 \<or> s = 1 \<or> s = 2 \<or> s = (3::int)"
  by arith

lemma tran_row_valid:
  assumes "0 \<le> s" "s < 4"
  shows "length (tran_matrix_table ! nat s) = 4"
    and "\<not> list_ex (\<lambda>x. x < 0) (tran_matrix_table ! nat s)"
    and "sum_list (tran_matrix_table ! nat s) = 1"
  using state_cases[OF assms] by (auto simp: tran_matrix_table_def)

lemma grid_nth: "idx < 4 \<Longrightarrow> [0, 1, 2, 3::int] ! idx = int idx"
proof -
  assume "idx < 4"
  then have "idx = 0 \<or> idx = 1 \<or> idx = 2 \<or> idx = 3" by arith
  then show ?thesis by auto
qed

lemma getitem_state:
  "0 \<le> s \<Longrightarrow> s < int (length xs) \<Longrightarrow> getitem xs s = Inr (xs ! nat s)"
  by (simp add: getitem_def)

lemma step_inv:
  assumes inv: "env_inv env" and cur: "cur_loc env = Some s" and a: "0 \<le> a" "a < 3"
  defines "idx \<equiv> searchsorted_right (map (\<lambda>c. c / sum_list (tran_matrix_table ! nat s)) (cumsum (tran_matrix_table ! nat s)))
             (fst (random_sample (rand_generator env)))"
  shows "ExampleEnvironment_step env a =
           Inr ((int idx, rewards_table ! nat s ! nat a),
                env\<lparr>rand_generator := stl (rand_generator env), cur_loc := Some (int idx)\<rparr>)"
    and "choice_p (grid env) (tran_matrix env ! nat s) (rand_generator env) = Inr (int idx, stl (rand_generator env))"
    and "idx < 4" and "0 < tran_matrix_table ! nat s ! idx"
proof -
  have s: "0 \<le> s" "s < 4" using inv cur by (auto simp: env_inv_def)
  have tabs: "grid env = [0, 1, 2, 3]" "rewards env = rewards_table" "tran_matrix env = tran_matrix_table"
    using inv by (auto simp: env_inv_def)
  let ?p = "tran_matrix_table ! nat s"
  have tol: "\<bar>sum_list ?p - 1\<bar> \<le> atol" using tran_row_valid(3)[OF s] by (simp add: atol_def)
  have len: "length ?p = length [0, 1, 2, 3::int]" using tran_row_valid(1)[OF s] by simp
  have ne: "[0, 1, 2, 3::int] \<noteq> []" by simp
  note cp = choice_p_valid[OF ne len tran_row_valid(2)[OF s] tol, of "rand_generator env", folded idx_def]
  show i4: "idx < 4" using cp(2) by simp
  show "0 < ?p ! idx" using cp(3) .
  show c: "choice_p (grid env) (tran_matrix env ! nat s) (rand_generator env) = Inr (int idx, stl (rand_generator env))"
    using cp(1) grid_nth[OF i4] tabs by simp
  have r1: "getitem (rewards env) s = Inr (rewards_table ! nat s)"
    using s tabs by (simp add: getitem_state rewards_table_def)
  have "length (rewards_table ! nat s) = 3"
    using state_cases[OF s] by (auto simp: rewards_table_def)
  then have r2: "getitem (rewards_table ! nat s) a = Inr (rewards_table ! nat s ! nat a)"
    using a by (simp add: getitem_state)
  have t1: "getitem (tran_matrix env) s = Inr (tran_matrix env ! nat s)"
    using s tabs by (simp add: getitem_state tran_matrix_table_def)
  show "ExampleEnvironment_step env a =
           Inr ((int idx, rewards_table ! nat s ! nat a),
                env\<lparr>rand_generator := stl (rand_generator env), cur_loc := Some (int idx)\<rparr>)"
    by (simp add: ExampleEnvironment_step_def cur r1 r2 t1 c)
qed

lemma start_inv:
  assumes "env_inv env"
  shows "ExampleEnvironment_start env =
           Inr (int (shd (rand_generator env) mod 4),
                env\<lparr>rand_generator := stl (rand_generator env),
                    cur_loc := Some (int (shd (rand_generator env) mod 4))\<rparr>)"
proof -
  have g: "grid env = [0, 1, 2, 3]" using assms by (simp add: env_inv_def)
  have "shd (rand_generator env) mod 4 < 4" by simp
  then have "[0, 1, 2, 3::int] ! (shd (rand_generator env) mod 4) = int (shd (rand_generator env) mod 4)"
    by (rule grid_nth)
  then show ?thesis by (simp add: ExampleEnvironment_start_def choice_def g)
qed

lemma init_inv: "env_inv (ExampleEnvironment_init g)"
  by (simp add: env_inv_def ExampleEnvironment_init_def)

lemma step_failure_or_valid:
  assumes inv: "env_inv env" and st: "ExampleEnvironment_step env a = Inr (out, env')"
  shows "env_inv env' \<and> 0 \<le> fst out \<and> fst out < 4 \<and> cur_loc env' = Some (fst out)"
proof -
  obtain s where cur: "cur_loc env = Some s"
    using st by (cases "cur_loc env") (auto simp: ExampleEnvironment_step_def)
  have s: "0 \<le> s" "s < 4" using inv cur by (auto simp: env_inv_def)
  have tabs: "grid env = [0, 1, 2, 3]" "rewards env = rewards_table" "tran_matrix env = tran_matrix_table"
    using inv by (auto simp: env_inv_def)
  let ?p = "tran_matrix_table ! nat s"
  have tol: "\<bar>sum_list ?p - 1\<bar> \<le> atol" using tran_row_valid(3)[OF s] by (simp add: atol_def)
  have len: "length ?p = length [0, 1, 2, 3::int]" using tran_row_valid(1)[OF s] by simp
  have ne: "[0, 1, 2, 3::int] \<noteq> []" by simp
  note cp = choice_p_valid[OF ne len tran_row_valid(2)[OF s] tol, of "rand_generator env"]
  define idx where "idx = searchsorted_right (map (\<lambda>c. c / sum_list ?p) (cumsum ?p))
             (fst (random_sample (rand_generator env)))"
  have i4: "idx < 4" using cp(2) by (simp add: idx_def)
  have c: "choice_p (grid env) ?p (rand_generator env) = Inr (int idx, stl (rand_generator env))"
    using cp(1) grid_nth[OF i4] tabs by (simp add: idx_def)
  have t1: "getitem (tran_matrix env) s = Inr ?p"
    using s tabs by (simp add: getitem_state tran_matrix_table_def)
  have "fst out = int idx \<and> env' = env\<lparr>rand_generator := stl (rand_generator env), cur_loc := Some (int idx)\<rparr>"
    using st by (auto simp: ExampleEnvironment_step_def cur t1 c split: sum.splits)
  then show ?thesis using inv i4 by (auto simp: env_inv_def)
qed

lemma reachable_inv: "env_reachable env \<Longrightarrow> env_inv env"
proof (induction rule: env_reachable.induct)
  case (constructed g)
  show ?case by (rule init_inv)
next
  case (started env s env')
  then show ?case using start_inv[of env] by (auto simp: env_inv_def)
next
  case (stepped env a out env')
  then show ?case using step_failure_or_valid by blast
qed

text \<open>
  No call changes the transition matrix: every reachable environment holds the literal of
  the constructor, whose rows are non-negative and sum to 1.
\<close>

lemma env_reachable_tran_matrix:
  assumes "env_reachable env"
  shows "tran_matrix env = tran_matrix_table"
    and "list_all (\<lambda>row. list_all (\<lambda>p. 0 \<le> p) row \<and> sum_list row = 1) (tran_matrix env)"
proof -
  show t: "tran_matrix env = tran_matrix_table"
    using reachable_inv[OF assms] by (simp add: env_inv_def)
  show "list_all (\<lambda>row. list_all (\<lambda>p. 0 \<le> p) row \<and> sum_list row = 1) (tran_matrix env)"
    unfolding t by (simp add: tran_matrix_table_def)
qed

lemma started_at_reachable:
  assumes "0 \<le> s" "s < 4"
  shows "env_reachable (started_at s g)"
proof -
  have r: "env_reachable (ExampleEnvironment_init (nat s ## g))" by (rule env_reachable.constructed)
  have "nat s mod 4 = nat s" using assms by simp
  then have "ExampleEnvironment_start (ExampleEnvironment_init (nat s ## g)) = Inr (s, started_at s g)"
    using start_inv[OF init_inv, of "nat s ## g"] assms
    by (simp add: started_at_def ExampleEnvironment_init_def)
  then show ?thesis using r env_reachable.started by blast
qed

section \<open>ExampleEnvironment: the contract of step\<close>

text \<open>
  C4. On every started environment (current state \<open>s\<close>) and for every action
  \<open>a\<close> in 0..2, \<^verbatim>\<open>step(a)\<close> returns \<open>(next_state, rewards[s][a])\<close>, where
  \<open>next_state\<close> is what numpy's \<^verbatim>\<open>choice\<close> draws from the grid with the weights
  of row \<open>s\<close> of the transition matrix (a state of positive probability in that
  row), and the call leaves \<open>next_state\<close> as the current state, the generator
  advanced by that one draw.
\<close>

theorem ExampleEnvironment_step_contract:
  assumes "env_reachable env" and "cur_loc env = Some s" and "0 \<le> a" and "a < 3"
  shows "\<exists>next_state g' env'.
           ExampleEnvironment_step env a = Inr ((next_state, rewards env ! nat s ! nat a), env') \<and>
           choice_p (grid env) (tran_matrix env ! nat s) (rand_generator env) = Inr (next_state, g') \<and>
           0 < tran_matrix env ! nat s ! nat next_state \<and>
           env' = env\<lparr>rand_generator := g', cur_loc := Some next_state\<rparr> \<and>
           cur_loc env' = Some next_state"
proof -
  have inv: "env_inv env" using assms(1) by (rule reachable_inv)
  have tabs: "rewards env = rewards_table" "tran_matrix env = tran_matrix_table"
    using inv by (auto simp: env_inv_def)
  note st = step_inv[OF inv assms(2) assms(3) assms(4)]
  show ?thesis using st(1) st(2) st(4) tabs by simp
qed

text \<open>C4 at a concrete run: current state 0, action 1, all raw numbers 0.\<close>

theorem ExampleEnvironment_step_contract_witness:
  "env_reachable (started_at 0 zeros) \<and> cur_loc (started_at 0 zeros) = Some 0 \<and>
   (\<exists>next_state g' env'.
      ExampleEnvironment_step (started_at 0 zeros) 1 =
        Inr ((next_state, rewards (started_at 0 zeros) ! nat 0 ! nat 1), env') \<and>
      choice_p (grid (started_at 0 zeros)) (tran_matrix (started_at 0 zeros) ! nat 0)
        (rand_generator (started_at 0 zeros)) = Inr (next_state, g') \<and>
      0 < tran_matrix (started_at 0 zeros) ! nat 0 ! nat next_state \<and>
      env' = (started_at 0 zeros)\<lparr>rand_generator := g', cur_loc := Some next_state\<rparr> \<and>
      cur_loc env' = Some next_state)"
proof -
  have r: "env_reachable (started_at 0 zeros)" by (rule started_at_reachable) simp_all
  have c: "cur_loc (started_at 0 zeros) = Some 0" by (simp add: started_at_def)
  show ?thesis
    using r c ExampleEnvironment_step_contract[OF r c, of 1] by simp
qed

text \<open>
  C6. From one and the same started environment, \<^verbatim>\<open>step(a1)\<close> and \<^verbatim>\<open>step(a2)\<close>
  for two actions in 0..2 return the same next state and leave the same environment
  (current state and generator); the two results differ in the reward only.
\<close>

theorem ExampleEnvironment_step_action_independent:
  assumes "env_reachable env" and "cur_loc env = Some s"
    and "0 \<le> a1" and "a1 < 3" and "0 \<le> a2" and "a2 < 3"
  shows "\<exists>next_state env'.
           ExampleEnvironment_step env a1 = Inr ((next_state, rewards env ! nat s ! nat a1), env') \<and>
           ExampleEnvironment_step env a2 = Inr ((next_state, rewards env ! nat s ! nat a2), env')"
proof -
  have inv: "env_inv env" using assms(1) by (rule reachable_inv)
  have tabs: "rewards env = rewards_table" using inv by (simp add: env_inv_def)
  show ?thesis
    using step_inv(1)[OF inv assms(2) assms(3) assms(4)] step_inv(1)[OF inv assms(2) assms(5) assms(6)] tabs
    by simp
qed

text \<open>C6 at a concrete run: current state 3, actions 0 and 2, rewards 2 and 3.\<close>

theorem ExampleEnvironment_step_action_independent_witness:
  "env_reachable (started_at 3 zeros) \<and> cur_loc (started_at 3 zeros) = Some 3 \<and>
   (\<exists>next_state env'.
      ExampleEnvironment_step (started_at 3 zeros) 0 = Inr ((next_state, 2), env') \<and>
      ExampleEnvironment_step (started_at 3 zeros) 2 = Inr ((next_state, 3), env'))"
proof -
  have r: "env_reachable (started_at 3 zeros)" by (rule started_at_reachable) simp_all
  have c: "cur_loc (started_at 3 zeros) = Some 3" by (simp add: started_at_def)
  have t: "rewards (started_at 3 zeros) = rewards_table"
    by (simp add: started_at_def ExampleEnvironment_init_def)
  have n: "rewards_table ! 3 ! 0 = 2" "rewards_table ! 3 ! 2 = 3"
    by (simp_all add: rewards_table_def)
  show ?thesis
    using r c ExampleEnvironment_step_action_independent[OF r c, of 0 2] by (simp add: t n)
qed

section \<open>ExampleEnvironment: actions out of range\<close>

text \<open>
  C8, as claimed for every action outside 0..2, fails for the actions -3..-1:
  \<^verbatim>\<open>self.rewards[self.cur_loc][action]\<close> is a Python list lookup, so
  \<^verbatim>\<open>step(-1)\<close> in state 0 reads the last reward of the row, 2, and succeeds.
\<close>

theorem ExampleEnvironment_step_negative_action_counterexample:
  "ExampleEnvironment_start (ExampleEnvironment_init zeros) = Inr (0, started_at 0 zeros) \<and>
   ExampleEnvironment_step (started_at 0 zeros) (- 1) = Inr ((0, 2), started_at 0 zeros)"
  by (simp add: ExampleEnvironment_start_def ExampleEnvironment_step_def ExampleEnvironment_init_def
      started_at_def choice_def choice_p_def getitem_def rewards_table_def
      tran_matrix_table_def atol_def cumsum_def random_sample_def searchsorted_right_def)

text \<open>
  C8, amended. On every started environment, \<^verbatim>\<open>step(action)\<close> raises
  \<^verbatim>\<open>IndexError\<close> (from the reward lookup, before anything is changed) for every
  action that is at least 3 or below -3.
\<close>

theorem ExampleEnvironment_step_action_out_of_range:
  assumes "env_reachable env" and "cur_loc env = Some s" and "a < - 3 \<or> 3 \<le> a"
  shows "ExampleEnvironment_step env a = Inl IndexError"
proof -
  have inv: "env_inv env" using assms(1) by (rule reachable_inv)
  have s: "0 \<le> s" "s < 4" using inv assms(2) by (auto simp: env_inv_def)
  have tabs: "rewards env = rewards_table" using inv by (auto simp: env_inv_def)
  have r1: "getitem (rewards env) s = Inr (rewards_table ! nat s)"
    using s tabs by (simp add: getitem_state rewards_table_def)
  have "length (rewards_table ! nat s) = 3"
    using state_cases[OF s] by (auto simp: rewards_table_def)
  then have "getitem (rewards_table ! nat s) a = Inl IndexError"
    using assms(3) by (auto simp: getitem_def)
  then show ?thesis by (simp add: ExampleEnvironment_step_def assms(2) r1)
qed

text \<open>C8, amended, at \<^verbatim>\<open>step(action=5)\<close>.\<close>

theorem ExampleEnvironment_step_action_out_of_range_witness:
  "env_reachable (started_at 0 zeros) \<and> cur_loc (started_at 0 zeros) = Some 0 \<and>
   ((5::int) < - 3 \<or> 3 \<le> (5::int)) \<and>
   ExampleEnvironment_step (started_at 0 zeros) 5 = Inl IndexError"
proof -
  have r: "env_reachable (started_at 0 zeros)" by (rule started_at_reachable) simp_all
  have c: "cur_loc (started_at 0 zeros) = Some 0" by (simp add: started_at_def)
  show ?thesis
    using r c ExampleEnvironment_step_action_out_of_range[OF r c, of 5] by simp
qed

section \<open>ExampleEnvironment: the current state stays in the grid\<close>

text \<open>
  C10. In every environment the class can reach, a current state that is set is one of
  0, 1, 2, 3; \<^verbatim>\<open>start()\<close> succeeds, returns such a state and makes it current; and
  every \<^verbatim>\<open>step\<close> that succeeds returns such a state and makes it current.
\<close>

theorem ExampleEnvironment_cur_loc_in_grid:
  assumes "env_reachable env"
  shows "(\<forall>s. cur_loc env = Some s \<longrightarrow> s \<in> {0, 1, 2, 3}) \<and>
         (\<exists>s env'. ExampleEnvironment_start env = Inr (s, env') \<and> s \<in> {0, 1, 2, 3} \<and> cur_loc env' = Some s) \<and>
         (\<forall>a next_state r env'. ExampleEnvironment_step env a = Inr ((next_state, r), env') \<longrightarrow>
            next_state \<in> {0, 1, 2, 3} \<and> cur_loc env' = Some next_state)"
proof -
  have inv: "env_inv env" using assms by (rule reachable_inv)
  have in_grid: "\<And>s::int. 0 \<le> s \<Longrightarrow> s < 4 \<Longrightarrow> s \<in> {0, 1, 2, 3}"
    using state_cases by auto
  have 1: "\<forall>s. cur_loc env = Some s \<longrightarrow> s \<in> {0, 1, 2, 3}"
    using inv in_grid by (auto simp: env_inv_def)
  have "int (shd (rand_generator env) mod 4) \<in> {0, 1, 2, 3}"
    by (rule in_grid) simp_all
  then have 2: "\<exists>s env'. ExampleEnvironment_start env = Inr (s, env') \<and> s \<in> {0, 1, 2, 3} \<and> cur_loc env' = Some s"
    using start_inv[OF inv] by simp
  have 3: "\<forall>a next_state r env'. ExampleEnvironment_step env a = Inr ((next_state, r), env') \<longrightarrow>
            next_state \<in> {0, 1, 2, 3} \<and> cur_loc env' = Some next_state"
    using step_failure_or_valid[OF inv] in_grid by fastforce
  show ?thesis using 1 2 3 by blast
qed

text \<open>C10 at a concrete run: from state 2, \<^verbatim>\<open>step(0)\<close> moves to state 1.\<close>

theorem ExampleEnvironment_cur_loc_in_grid_witness:
  "env_reachable (started_at 2 zeros) \<and> cur_loc (started_at 2 zeros) = Some 2 \<and>
   (2::int) \<in> {0, 1, 2, 3} \<and>
   ExampleEnvironment_step (started_at 2 zeros) 0 = Inr ((1, 1), started_at 1 zeros) \<and>
   (1::int) \<in> {0, 1, 2, 3} \<and> cur_loc (started_at 1 zeros) = Some 1"
proof -
  have r: "env_reachable (started_at 2 zeros)" by (rule started_at_reachable) simp_all
  have st: "ExampleEnvironment_step (started_at 2 zeros) 0 = Inr ((1, 1), started_at 1 zeros)"
    by (simp add: ExampleEnvironment_step_def ExampleEnvironment_init_def
      started_at_def choice_p_def getitem_def rewards_table_def
      tran_matrix_table_def atol_def cumsum_def random_sample_def searchsorted_right_def)
  show ?thesis
    using r st ExampleEnvironment_cur_loc_in_grid[OF r] by (simp add: started_at_def)
qed

section \<open>QLearningAgent: argmax\<close>

lemma Max_take_Suc:
  assumes "0 < j" "j < length (xs::real list)"
  shows "Max (set (take (Suc j) xs)) = max (Max (set (take j xs))) (xs ! j)"
proof -
  have ne: "set (take j xs) \<noteq> {}" using assms by auto
  have "set (take (Suc j) xs) = insert (xs ! j) (set (take j xs))"
    using assms by (simp add: take_Suc_conv_app_nth)
  then show ?thesis using ne by (simp add: max.commute)
qed

lemma nth_le_Max_take:
  assumes "i < j" "j \<le> length (xs::real list)"
  shows "xs ! i \<le> Max (set (take j xs))"
proof -
  have "xs ! i = take j xs ! i" using assms by simp
  moreover have "take j xs ! i \<in> set (take j xs)" using assms by (intro nth_mem) simp
  ultimately show ?thesis by simp
qed

lemma filter_upt_none:
  assumes "\<And>i. i < j \<Longrightarrow> \<not> P i"
  shows "filter P [0..<j] = []"
  using assms by (simp add: filter_empty_conv)

lemma argmax_scan_prefix:
  assumes "0 < k" "k \<le> length qs"
  shows "foldl (argmax_step qs) (None, []) [0..<k] =
           (Some (Max (set (take k qs))), filter (\<lambda>i. qs ! i = Max (set (take k qs))) [0..<k])"
  using assms
proof (induction k)
  case 0
  then show ?case by simp
next
  case (Suc j)
  show ?case
  proof (cases "j = 0")
    case True
    have "take (Suc 0) qs = [qs ! 0]" using Suc.prems by (cases qs) auto
    then show ?thesis using True by simp
  next
    case False
    then have j: "0 < j" "j < length qs" "j \<le> length qs" using Suc.prems by auto
    let ?M = "Max (set (take j qs))"
    let ?x = "qs ! j"
    have ih: "foldl (argmax_step qs) (None, []) [0..<j] = (Some ?M, filter (\<lambda>i. qs ! i = ?M) [0..<j])"
      using Suc.IH j by simp
    have mx: "Max (set (take (Suc j) qs)) = max ?M ?x" by (rule Max_take_Suc[OF j(1) j(2)])
    have le: "\<And>i. i < j \<Longrightarrow> qs ! i \<le> ?M" using nth_le_Max_take[OF _ j(3)] by simp
    consider (gt) "?M < ?x" | (eq) "?x = ?M" | (lt) "?x < ?M" by linarith
    then show ?thesis
    proof cases
      case gt
      then have m: "max ?M ?x = ?x" by simp
      have "\<And>i. i < j \<Longrightarrow> \<not> qs ! i = ?x" using le gt by fastforce
      then have "filter (\<lambda>i. qs ! i = ?x) [0..<j] = []" by (rule filter_upt_none)
      then show ?thesis using gt ih by (simp add: mx m)
    next
      case eq
      then have m: "max ?M ?x = ?M" by simp
      show ?thesis using eq ih by (simp add: mx m)
    next
      case lt
      then have m: "max ?M ?x = ?M" by simp
      show ?thesis using lt ih by (simp add: mx m)
    qed
  qed
qed

lemma argmax_scan_eq:
  assumes "qs \<noteq> []"
  shows "argmax_scan qs = (Some (Max (set qs)), filter (\<lambda>i. qs ! i = Max (set qs)) [0..<length qs])"
  using argmax_scan_prefix[of "length qs" qs] assms by (simp add: argmax_scan_def)

lemma ties_nonempty:
  assumes "qs \<noteq> []"
  shows "filter (\<lambda>i. qs ! i = Max (set qs)) [0..<length (qs::real list)] \<noteq> []"
proof -
  have "Max (set qs) \<in> set qs" using assms by (intro Max_in) auto
  then obtain i where "i < length qs" "qs ! i = Max (set qs)" by (auto simp: in_set_conv_nth)
  then show ?thesis by (auto simp: filter_empty_conv)
qed

section \<open>QLearningAgent: every reachable agent is well formed\<close>

lemma getitem_in_range:
  "- int (length xs) \<le> i \<Longrightarrow> i < int (length xs) \<Longrightarrow> getitem xs i = Inr (xs ! norm_index (length xs) i)"
  by (simp add: getitem_def norm_index_def)

lemma norm_index_less:
  "- int n \<le> i \<Longrightarrow> i < int n \<Longrightarrow> norm_index n i < n"
  by (auto simp: norm_index_def)

lemma norm_index_nonneg: "0 \<le> i \<Longrightarrow> norm_index n i = nat i"
  by (simp add: norm_index_def)

lemma uniform_row_length: "length (fst (uniform_row low high n g)) = n"
  by (induction n arbitrary: g) (auto simp: split_def Let_def)

lemma uniform_table_shape:
  "length (fst (uniform_table low high m cols g)) = m \<and>
   list_all (\<lambda>row. length row = cols) (fst (uniform_table low high m cols g))"
  by (induction m arbitrary: g) (auto simp: split_def Let_def uniform_row_length)

lemma agent_init_inv: "agent_inv (QLearningAgent_init agent_info g)"
  using uniform_table_shape[of 0 "1 / 10" 4 3 g]
  by (simp add: agent_inv_def QLearningAgent_init_def split_def Let_def)

lemma argmax_ok:
  assumes "row \<noteq> []"
  shows "\<exists>act. argmax row g = Inr (act, stl g) \<and> 0 \<le> act \<and> act < int (length row)"
proof -
  let ?ties = "filter (\<lambda>i. row ! i = Max (set row)) [0..<length row]"
  have t: "snd (argmax_scan row) = ?ties" using argmax_scan_eq[OF assms] by simp
  have ne: "?ties \<noteq> []" by (rule ties_nonempty[OF assms])
  then have "shd g mod length ?ties < length ?ties" by simp
  then have "?ties ! (shd g mod length ?ties) \<in> set ?ties" by (rule nth_mem)
  then have "?ties ! (shd g mod length ?ties) < length row" by simp
  then show ?thesis using ne by (simp add: argmax_def t choice_def)
qed

lemma epsilon_greedy_ok:
  assumes "num_actions a = 3" "length row = 3"
  shows "\<exists>act. epsilon_greedy a row = (Inr act, stl (stl (rand_generator_agent a))) \<and> 0 \<le> act \<and> act < 3"
proof -
  have ne: "row \<noteq> []" using assms(2) by auto
  obtain act where act: "argmax row (stl (rand_generator_agent a)) = Inr (act, stl (stl (rand_generator_agent a)))"
     "0 \<le> act" "act < 3"
    using argmax_ok[OF ne, of "stl (rand_generator_agent a)"] assms(2) by auto
  show ?thesis
  proof (cases "fst (random_sample (rand_generator_agent a)) < epsilon a")
    case True
    then show ?thesis using assms(1)
      by (simp add: epsilon_greedy_def split_def randint_def random_sample_def)
  next
    case False
    then show ?thesis using act
      by (simp add: epsilon_greedy_def split_def random_sample_def)
  qed
qed

lemma max_over_actions_fold:
  assumes "\<forall>act\<in>set acts. act < length row"
  shows "max_over_actions a cur r row acts v =
           Inr (foldl (\<lambda>m act. max m (td_value a cur r (row ! act))) v acts)"
  using assms by (induction acts arbitrary: v) (auto simp: getitem_nat)

lemma max_over_actions_3:
  assumes "length row = 3"
  shows "max_over_actions a cur r row [0..<3] v =
           Inr (max (max (max v (td_value a cur r (row ! 0))) (td_value a cur r (row ! 1)))
                    (td_value a cur r (row ! 2)))"
proof -
  have "[0..<3] = [0, 1, 2::nat]" by (simp add: upt_rec)
  then show ?thesis using max_over_actions_fold[of "[0..<3]" row a cur r v] assms by simp
qed

lemma agent_inv_row:
  assumes "agent_inv a" "i < 4"
  shows "length (q a ! i) = 3"
  using assms by (simp add: agent_inv_def list_all_length)

lemma step_explicit:
  fixes reward :: real and state :: int
  assumes inv: "agent_inv a" and ps: "prev_state a = Some ps" and pa: "prev_action a = Some pa"
    and st: "- 4 \<le> state" "state < 4"
  defines "row \<equiv> q a ! norm_index 4 state"
    and "cur \<equiv> q a ! norm_index 4 ps ! norm_index 3 pa"
  defines "nv \<equiv> max (max (max (- 100000000) (td_value a cur reward (row ! 0)))
                         (td_value a cur reward (row ! 1))) (td_value a cur reward (row ! 2))"
  shows "\<exists>act. 0 \<le> act \<and> act < 3 \<and>
           QLearningAgent_step a state reward =
             (Inr (act, \<bar>nv - cur\<bar> < delta a),
              a\<lparr>rand_generator_agent := stl (stl (rand_generator_agent a)),
                q := (q a)[norm_index 4 ps := (q a ! norm_index 4 ps)[norm_index 3 pa := nv]]\<rparr>)"
proof -
  have len: "length (q a) = 4" and na: "num_actions a = 3" using inv by (auto simp: agent_inv_def)
  have mem: "- 4 \<le> ps" "ps < 4" "0 \<le> pa" "pa < 3" using inv ps pa by (auto simp: agent_inv_def)
  have g1: "getitem (q a) state = Inr row"
    using getitem_in_range[of "q a" state] st len by (simp add: row_def)
  have rl: "length row = 3" unfolding row_def
    by (rule agent_inv_row[OF inv]) (use norm_index_less[of 4 state] st in simp)
  obtain act where act: "epsilon_greedy a row = (Inr act, stl (stl (rand_generator_agent a)))"
      "0 \<le> act" "act < 3"
    using epsilon_greedy_ok[OF na rl] by blast
  have pl: "length (q a ! norm_index 4 ps) = 3"
    by (rule agent_inv_row[OF inv]) (use norm_index_less[of 4 ps] mem in simp)
  have "getitem (q a) ps = Inr (q a ! norm_index 4 ps)"
    using getitem_in_range[of "q a" ps] mem len by simp
  moreover have "getitem (q a ! norm_index 4 ps) pa = Inr cur"
    using getitem_in_range[of "q a ! norm_index 4 ps" pa] mem pl by (simp add: cur_def)
  ultimately have g2: "getitem2 (q a) ps pa = Inr cur" by (simp add: getitem2_def)
  have mx: "max_over_actions a cur reward row [0..<num_actions a] (- 100000000) = Inr nv"
    using max_over_actions_3[OF rl, of a cur reward "- 100000000"] by (simp add: na nv_def)
  have set: "setitem2 (q a) ps pa nv = (q a)[norm_index 4 ps := (q a ! norm_index 4 ps)[norm_index 3 pa := nv]]"
    by (simp add: setitem2_def Let_def len pl)
  have "QLearningAgent_step a state reward =
             (Inr (act, \<bar>nv - cur\<bar> < delta a),
              a\<lparr>rand_generator_agent := stl (stl (rand_generator_agent a)),
                q := (q a)[norm_index 4 ps := (q a ! norm_index 4 ps)[norm_index 3 pa := nv]]\<rparr>)"
    by (simp add: QLearningAgent_step_def g1 act(1) ps pa g2 mx set)
  then show ?thesis using act(2,3) by blast
qed

lemma start_explicit:
  assumes inv: "agent_inv a" and st: "- 4 \<le> state" "state < 4"
  shows "\<exists>act. 0 \<le> act \<and> act < 3 \<and>
           QLearningAgent_start a state =
             (Inr act, a\<lparr>rand_generator_agent := stl (stl (rand_generator_agent a)),
                        prev_state := Some state, prev_action := Some act\<rparr>)"
proof -
  have len: "length (q a) = 4" and na: "num_actions a = 3" using inv by (auto simp: agent_inv_def)
  let ?row = "q a ! norm_index 4 state"
  have g1: "getitem (q a) state = Inr ?row"
    using getitem_in_range[of "q a" state] st len by simp
  have rl: "length ?row = 3"
    by (rule agent_inv_row[OF inv]) (use norm_index_less[of 4 state] st in simp)
  obtain act where act: "epsilon_greedy a ?row = (Inr act, stl (stl (rand_generator_agent a)))"
      "0 \<le> act" "act < 3"
    using epsilon_greedy_ok[OF na rl] by blast
  show ?thesis using act by (simp add: QLearningAgent_start_def g1)
qed

lemma start_failure:
  assumes "length (q a) = 4" "\<not> (- 4 \<le> state \<and> state < 4)"
  shows "QLearningAgent_start a state = (Inl IndexError, a)"
  using assms by (auto simp: QLearningAgent_start_def getitem_def)

lemma step_failure_state:
  assumes "length (q a) = 4" "\<not> (- 4 \<le> state \<and> state < 4)"
  shows "QLearningAgent_step a state reward = (Inl IndexError, a)"
  using assms by (auto simp: QLearningAgent_step_def getitem_def)

lemma step_failure_memory:
  assumes inv: "agent_inv a" and mem: "prev_state a = None" and st: "- 4 \<le> state" "state < 4"
  shows "QLearningAgent_step a state reward =
           (Inl ValueError, a\<lparr>rand_generator_agent := stl (stl (rand_generator_agent a))\<rparr>)"
proof -
  have len: "length (q a) = 4" and na: "num_actions a = 3" using inv by (auto simp: agent_inv_def)
  have pa: "prev_action a = None" using inv mem by (auto simp: agent_inv_def split: option.splits)
  let ?row = "q a ! norm_index 4 state"
  have g1: "getitem (q a) state = Inr ?row"
    using getitem_in_range[of "q a" state] st len by simp
  have rl: "length ?row = 3"
    by (rule agent_inv_row[OF inv]) (use norm_index_less[of 4 state] st in simp)
  obtain act where act: "epsilon_greedy a ?row = (Inr act, stl (stl (rand_generator_agent a)))"
    using epsilon_greedy_ok[OF na rl] by blast
  show ?thesis by (simp add: QLearningAgent_step_def g1 act mem pa)
qed

lemma agent_inv_update:
  assumes "agent_inv a"
  shows "agent_inv (a\<lparr>rand_generator_agent := g, q := (q a)[r := (q a ! r)[c := v]]\<rparr>)"
proof -
  have rows: "\<forall>n<4. length (q a ! n) = 3" and len: "length (q a) = 4"
    using assms by (auto simp: agent_inv_def list_all_length)
  have "\<forall>n<4. length ((q a)[r := (q a ! r)[c := v]] ! n) = 3"
  proof (intro allI impI)
    fix n :: nat
    assume n: "n < 4"
    show "length ((q a)[r := (q a ! r)[c := v]] ! n) = 3"
    proof (cases "n = r")
      case True
      then show ?thesis using n rows len by simp
    next
      case False
      then show ?thesis using n rows by simp
    qed
  qed
  then have "list_all (\<lambda>row. length row = 3) ((q a)[r := (q a ! r)[c := v]])"
    using len by (simp add: list_all_length)
  then show ?thesis using assms by (simp add: agent_inv_def)
qed

lemma start_preserves:
  assumes inv: "agent_inv a" and call: "QLearningAgent_start a state = (out, a')"
  shows "agent_inv a' \<and> q a' = q a"
proof (cases "- 4 \<le> state \<and> state < 4")
  case True
  then obtain act where "0 \<le> act" "act < 3"
    "QLearningAgent_start a state =
             (Inr act, a\<lparr>rand_generator_agent := stl (stl (rand_generator_agent a)),
                        prev_state := Some state, prev_action := Some act\<rparr>)"
    using start_explicit[OF inv, of state] by blast
  then show ?thesis using call inv True by (auto simp: agent_inv_def)
next
  case False
  have "length (q a) = 4" using inv by (simp add: agent_inv_def)
  then show ?thesis using start_failure[OF _ False, of a] call inv by simp
qed

lemma step_preserves:
  assumes inv: "agent_inv a" and call: "QLearningAgent_step a state reward = (res, a')"
  shows "agent_inv a' \<and> prev_state a' = prev_state a \<and> prev_action a' = prev_action a"
proof (cases "- 4 \<le> state \<and> state < 4")
  case False
  have "length (q a) = 4" using inv by (simp add: agent_inv_def)
  then show ?thesis using step_failure_state[OF _ False, of a reward] call inv by simp
next
  case True
  show ?thesis
  proof (cases "prev_state a")
    case None
    then show ?thesis using step_failure_memory[OF inv None, of state reward] True call inv
      by (auto simp: agent_inv_def)
  next
    case (Some ps)
    then obtain pa where pa: "prev_action a = Some pa"
      using inv by (auto simp: agent_inv_def split: option.splits)
    obtain act nv r c where
      "QLearningAgent_step a state reward =
             (Inr (act, \<bar>nv - q a ! norm_index 4 ps ! norm_index 3 pa\<bar> < delta a),
              a\<lparr>rand_generator_agent := stl (stl (rand_generator_agent a)),
                q := (q a)[r := (q a ! r)[c := nv]]\<rparr>)"
      using step_explicit[OF inv Some pa, of state reward] True by blast
    then have "a' = a\<lparr>rand_generator_agent := stl (stl (rand_generator_agent a)),
                q := (q a)[r := (q a ! r)[c := nv]]\<rparr>" using call by simp
    then show ?thesis using agent_inv_update[OF inv] by simp
  qed
qed

lemma agent_reachable_inv: "agent_reachable a \<Longrightarrow> agent_inv a"
proof (induction rule: agent_reachable.induct)
  case (constructed agent_info g)
  show ?case by (rule agent_init_inv)
next
  case (started a state out a')
  then show ?case using start_preserves by blast
next
  case (stepped a state reward res a')
  then show ?case using step_preserves by blast
qed

lemma random_sample_zeros: "random_sample zeros = (0, zeros)"
  by (simp add: random_sample_def)

lemma uniform_row_zeros: "uniform_row low high n zeros = (replicate n low, zeros)"
  by (induction n) (simp_all add: uniform_def random_sample_zeros)

lemma uniform_table_zeros:
  "uniform_table low high m cols zeros = (replicate m (replicate cols low), zeros)"
  by (induction m) (simp_all add: uniform_row_zeros)

lemma agent_zero_eq:
  "agent_zero =
     \<lparr>num_actions = 3, num_states = 4, discount = 9 / 10, step_size = 1 / 10, epsilon = 1 / 10,
      delta = 1 / 100, rand_generator_agent = zeros, q = zero_table,
      prev_state = None, prev_action = None\<rparr>"
  by (simp add: agent_zero_def QLearningAgent_init_def uniform_table_zeros get_default_def
      zero_table_def numeral_eq_Suc)

lemma start_agent_zero: "QLearningAgent_start agent_zero 0 = (Inr 0, agent_started)"
  by (simp add: agent_zero_eq agent_started_def QLearningAgent_start_def getitem_def zero_table_def
      epsilon_greedy_def random_sample_zeros randint_def)

lemma agent_started_reachable: "agent_reachable agent_started"
proof -
  have "agent_reachable agent_zero" unfolding agent_zero_def by (rule agent_reachable.constructed)
  then show ?thesis using start_agent_zero agent_reachable.started by blast
qed

section \<open>QLearningAgent: the tie list of argmax\<close>

text \<open>
  C2. For every non-empty list of Q-values, the scan of \<^verbatim>\<open>argmax\<close> ends with the running
  maximum equal to the maximum of the list and with the tie list equal to the indices
  holding that maximum, in increasing order. The returned action is the element of the
  tie list at the index the generator draws below its length: draw \<open>k\<close> selects the
  \<open>k\<close>-th tied index, the tied indices are pairwise different, so each of them is
  returned for exactly one of the equally likely draws. A value strictly above the running
  maximum resets the tie list to its own index.
\<close>

theorem argmax_ties_exact:
  assumes "q_values \<noteq> []"
  shows "fst (argmax_scan q_values) = Some (Max (set q_values)) \<and>
         snd (argmax_scan q_values) =
           filter (\<lambda>i. q_values ! i = Max (set q_values)) [0..<length q_values] \<and>
         snd (argmax_scan q_values) \<noteq> [] \<and>
         sorted (snd (argmax_scan q_values)) \<and> distinct (snd (argmax_scan q_values)) \<and>
         argmax q_values g =
           Inr (int (snd (argmax_scan q_values) ! (shd g mod length (snd (argmax_scan q_values)))), stl g) \<and>
         (\<forall>k<length (snd (argmax_scan q_values)).
            argmax q_values (k ## g) = Inr (int (snd (argmax_scan q_values) ! k), g)) \<and>
         (\<forall>top0 ties i. (case top0 of None \<Rightarrow> True | Some t \<Rightarrow> t < q_values ! i) \<longrightarrow>
            argmax_step q_values (top0, ties) i = (Some (q_values ! i), [i]))"
proof -
  let ?ties = "filter (\<lambda>i. q_values ! i = Max (set q_values)) [0..<length q_values]"
  have sc: "argmax_scan q_values = (Some (Max (set q_values)), ?ties)"
    by (rule argmax_scan_eq[OF assms])
  have ne: "?ties \<noteq> []" by (rule ties_nonempty[OF assms])
  have so: "sorted ?ties" by (simp add: sorted_wrt_filter)
  have di: "distinct ?ties" by simp
  have a1: "argmax q_values g = Inr (int (?ties ! (shd g mod length ?ties)), stl g)"
    using ne by (simp add: argmax_def sc choice_def)
  have a2: "\<forall>k<length ?ties. argmax q_values (k ## g) = Inr (int (?ties ! k), g)"
    using ne by (simp add: argmax_def sc choice_def)
  have a3: "\<forall>top0 ties i. (case top0 of None \<Rightarrow> True | Some t \<Rightarrow> t < q_values ! i) \<longrightarrow>
            argmax_step q_values (top0, ties) i = (Some (q_values ! i), [i])"
    by simp
  show ?thesis using ne so di a1 a2 a3 by (simp only: sc fst_conv snd_conv simp_thms)
qed

text \<open>C2 at the Q-values 1, 3, 3, 2: the tie list is [1, 2].\<close>

theorem argmax_ties_exact_witness:
  "[1, 3, 3, 2 :: real] \<noteq> [] \<and>
   argmax_scan [1, 3, 3, 2] = (Some 3, [1, 2]) \<and>
   argmax [1, 3, 3, 2] (0 ## zeros) = Inr (1, zeros) \<and>
   argmax [1, 3, 3, 2] (1 ## zeros) = Inr (2, zeros) \<and>
   argmax_step [1, 3, 3, 2] (Some 1, [0]) 1 = (Some 3, [1])"
proof -
  have ne: "[1, 3, 3, 2 :: real] \<noteq> []" by simp
  have f: "filter (\<lambda>i. [1, 3, 3, 2 :: real] ! i = Max (set [1, 3, 3, 2])) [0..<length [1, 3, 3, 2 :: real]] = [1, 2]"
    by (simp add: upt_rec)
  have m: "Max (set [1, 3, 3, 2 :: real]) = 3" by simp
  note t = argmax_ties_exact[OF ne, of zeros]
  have sc: "argmax_scan [1, 3, 3, 2] = (Some 3, [1, 2])"
    using t f m by (simp add: prod_eq_iff)
  have k0: "argmax [1, 3, 3, 2] (0 ## zeros) = Inr (1, zeros)"
    using t sc by simp
  have k1: "argmax [1, 3, 3, 2] (1 ## zeros) = Inr (2, zeros)"
    using t sc by simp
  have st: "argmax_step [1, 3, 3, 2] (Some 1, [0]) 1 = (Some 3, [1])"
    using t by simp
  show ?thesis using ne sc k0 k1 st by simp
qed

section \<open>QLearningAgent: the value written by step\<close>

lemma td_value_mono:
  assumes "0 \<le> step_size a" "0 \<le> discount a" "x \<le> y"
  shows "td_value a cur r x \<le> td_value a cur r y"
proof -
  have "discount a * x \<le> discount a * y" using assms(2,3) by (rule mult_left_mono[rotated])
  then have "step_size a * (r + discount a * x - cur) \<le> step_size a * (r + discount a * y - cur)"
    using assms(1) by (intro mult_left_mono) simp_all
  then show ?thesis by (simp add: td_value_def)
qed

lemma td_value_max:
  assumes "0 \<le> step_size a" "0 \<le> discount a"
  shows "td_value a cur r (max x y) = max (td_value a cur r x) (td_value a cur r y)"
proof (cases "x \<le> y")
  case True
  then show ?thesis using td_value_mono[OF assms True, of cur r] by (simp add: max_def)
next
  case False
  then have "y \<le> x" by simp
  then show ?thesis using td_value_mono[OF assms \<open>y \<le> x\<close>, of cur r] False by (simp add: max_def)
qed

lemma Max_row3: "length row = 3 \<Longrightarrow> Max (set (row::real list)) = max (max (row ! 0) (row ! 1)) (row ! 2)"
proof -
  assume "length row = 3"
  then obtain x y z where "row = [x, y, z]"
    by (metis (no_types, opaque_lifting) length_0_conv length_Suc_conv numeral_3_eq_3)
  then show ?thesis by (simp add: max.commute max.left_commute)
qed

lemma max_over_actions_spec:
  assumes "length row = 3" "0 \<le> step_size a" "0 \<le> discount a"
    and "- 100000000 \<le> spec_update a cur r row"
  shows "max_over_actions a cur r row [0..<3] (- 100000000) = Inr (spec_update a cur r row)"
proof -
  have "spec_update a cur r row = td_value a cur r (Max (set row))"
    by (simp add: spec_update_def td_value_def)
  also have "\<dots> = max (max (td_value a cur r (row ! 0)) (td_value a cur r (row ! 1)))
                       (td_value a cur r (row ! 2))"
    by (simp add: Max_row3[OF assms(1)] td_value_max[OF assms(2,3)])
  finally have sp: "spec_update a cur r row =
      max (max (td_value a cur r (row ! 0)) (td_value a cur r (row ! 1))) (td_value a cur r (row ! 2))" .
  have "max (max (max (- 100000000) (td_value a cur r (row ! 0))) (td_value a cur r (row ! 1)))
            (td_value a cur r (row ! 2)) =
        max (- 100000000) (spec_update a cur r row)"
    unfolding sp by (simp add: max.assoc)
  also have "\<dots> = spec_update a cur r row" using assms(4) by simp
  finally show ?thesis by (simp only: max_over_actions_3[OF assms(1)])
qed

text \<open>
  Where the loop of \<^verbatim>\<open>step\<close> and the update rule agree: with a non-negative step
  size and discount, whenever the value of the rule is not below the initial running
  maximum \<^verbatim>\<open>-1e8\<close>, it is the value \<^verbatim>\<open>step\<close> writes.
\<close>

lemma QLearningAgent_step_writes_spec_update:
  assumes reach: "agent_reachable a" and ps: "prev_state a = Some ps" and pa: "prev_action a = Some pa"
    and ps0: "0 \<le> ps" and st: "0 \<le> state" "state < 4"
    and pos: "0 \<le> step_size a" "0 \<le> discount a"
    and above: "- 100000000 \<le> spec_update a (q a ! nat ps ! nat pa) reward (q a ! nat state)"
  shows "\<exists>res a'. QLearningAgent_step a state reward = (Inr res, a') \<and>
           q a' ! nat ps ! nat pa = spec_update a (q a ! nat ps ! nat pa) reward (q a ! nat state)"
proof -
  have inv: "agent_inv a" using reach by (rule agent_reachable_inv)
  have mem: "ps < 4" "0 \<le> pa" "pa < 3" using inv ps pa by (auto simp: agent_inv_def)
  have len: "length (q a) = 4" using inv by (simp add: agent_inv_def)
  have rl: "length (q a ! nat ps) = 3"
    by (rule agent_inv_row[OF inv]) (use ps0 mem in simp)
  have sl: "length (q a ! nat state) = 3"
    by (rule agent_inv_row[OF inv]) (use st in simp)
  have st': "- 4 \<le> state" using st by simp
  have idx: "norm_index 4 ps = nat ps" "norm_index 3 pa = nat pa" "norm_index 4 state = nat state"
    using ps0 mem st by (simp_all add: norm_index_nonneg)
  let ?cur = "q a ! nat ps ! nat pa"
  let ?row = "q a ! nat state"
  let ?nv = "max (max (max (- 100000000) (td_value a ?cur reward (?row ! 0)))
                         (td_value a ?cur reward (?row ! 1))) (td_value a ?cur reward (?row ! 2))"
  obtain act where step:
    "QLearningAgent_step a state reward =
       (Inr (act, \<bar>?nv - ?cur\<bar> < delta a),
        a\<lparr>rand_generator_agent := stl (stl (rand_generator_agent a)),
          q := (q a)[nat ps := (q a ! nat ps)[nat pa := ?nv]]\<rparr>)"
    using step_explicit[OF inv ps pa st' st(2), of reward] by (auto simp: idx)
  have nv: "?nv = spec_update a ?cur reward ?row"
    using max_over_actions_spec[OF sl pos above] unfolding max_over_actions_3[OF sl] by simp
  have "q (a\<lparr>rand_generator_agent := stl (stl (rand_generator_agent a)),
          q := (q a)[nat ps := (q a ! nat ps)[nat pa := ?nv]]\<rparr>) ! nat ps ! nat pa = ?nv"
    using len rl ps0 mem by simp
  then have "q (a\<lparr>rand_generator_agent := stl (stl (rand_generator_agent a)),
          q := (q a)[nat ps := (q a ! nat ps)[nat pa := ?nv]]\<rparr>) ! nat ps ! nat pa =
       spec_update a ?cur reward ?row"
    using nv by (rule trans)
  then show ?thesis using step by blast
qed

lemma QLearningAgent_start_frame:
  assumes "agent_reachable a" and "QLearningAgent_start a state = (out, a')"
  shows "q a' = q a"
  using start_preserves[OF agent_reachable_inv[OF assms(1)] assms(2)] by simp

lemma QLearningAgent_step_frame:
  assumes "agent_reachable a" and "QLearningAgent_step a state reward = (res, a')"
  shows "prev_state a' = prev_state a \<and> prev_action a' = prev_action a \<and>
         (q a' = q a \<or>
          (\<exists>ps pa v. prev_state a = Some ps \<and> prev_action a = Some pa \<and>
             q a' = (q a)[norm_index 4 ps := (q a ! norm_index 4 ps)[norm_index 3 pa := v]]))"
proof -
  have inv: "agent_inv a" using assms(1) by (rule agent_reachable_inv)
  have len: "length (q a) = 4" using inv by (simp add: agent_inv_def)
  have mem: "prev_state a' = prev_state a \<and> prev_action a' = prev_action a"
    using step_preserves[OF inv assms(2)] by simp
  have "q a' = q a \<or>
          (\<exists>ps pa v. prev_state a = Some ps \<and> prev_action a = Some pa \<and>
             q a' = (q a)[norm_index 4 ps := (q a ! norm_index 4 ps)[norm_index 3 pa := v]])"
  proof (cases "- 4 \<le> state \<and> state < 4")
    case False
    then show ?thesis using step_failure_state[OF len False, of reward] assms(2) by simp
  next
    case True
    show ?thesis
    proof (cases "prev_state a")
      case None
      then show ?thesis using step_failure_memory[OF inv None, of state reward] True assms(2) by auto
    next
      case (Some ps)
      then obtain pa where pa: "prev_action a = Some pa"
        using inv by (auto simp: agent_inv_def split: option.splits)
      obtain act nv where
        "QLearningAgent_step a state reward =
             (Inr (act, \<bar>nv - q a ! norm_index 4 ps ! norm_index 3 pa\<bar> < delta a),
              a\<lparr>rand_generator_agent := stl (stl (rand_generator_agent a)),
                q := (q a)[norm_index 4 ps := (q a ! norm_index 4 ps)[norm_index 3 pa := nv]]\<rparr>)"
        using step_explicit[OF inv Some pa, of state reward] True by blast
      then have "q a' = (q a)[norm_index 4 ps := (q a ! norm_index 4 ps)[norm_index 3 pa := nv]]"
        using assms(2) by auto
      then show ?thesis using Some pa by blast
    qed
  qed
  then show ?thesis using mem by blast
qed

section \<open>QLearningAgent: two runs of step\<close>

text \<open>
  C1. The value \<^verbatim>\<open>step\<close> writes is the maximum of \<^verbatim>\<open>-1e8\<close> and the candidate values,
  not the maximum of the candidate values alone. With the default configuration
  (discount 0.9, step size 0.1), an all-zero table, memory \<open>(0, 0)\<close> recorded by
  \<^verbatim>\<open>start(0)\<close> and the call \<^verbatim>\<open>step(0, -2e9)\<close>, every candidate is \<open>-2e8\<close>:
  the code writes \<open>-1e8\<close> where the update formula gives \<open>-2e8\<close>.
\<close>

theorem QLearningAgent_step_sentinel_value:
  "QLearningAgent_start agent_zero 0 = (Inr 0, agent_started) \<and>
   QLearningAgent_step agent_started 0 (- 2000000000) =
     (Inr (0, False), agent_started\<lparr>q := [[- 100000000, 0, 0], [0, 0, 0], [0, 0, 0], [0, 0, 0]]\<rparr>) \<and>
   spec_update agent_started (q agent_started ! 0 ! 0) (- 2000000000) (q agent_started ! 0) = - 200000000"
proof -
  have 1: "QLearningAgent_step agent_started 0 (- 2000000000) =
     (Inr (0, False), agent_started\<lparr>q := [[- 100000000, 0, 0], [0, 0, 0], [0, 0, 0], [0, 0, 0]]\<rparr>)"
    by (simp add: agent_started_def QLearningAgent_step_def getitem_def getitem2_def setitem2_def
        norm_index_def zero_table_def epsilon_greedy_def random_sample_zeros randint_def
        td_value_def upt_rec)
  have 2: "spec_update agent_started (q agent_started ! 0 ! 0) (- 2000000000) (q agent_started ! 0) = - 200000000"
    by (simp add: agent_started_def spec_update_def zero_table_def)
  show ?thesis using start_agent_zero 1 2 by simp
qed

text \<open>
  C7. \<^verbatim>\<open>step\<close> never assigns \<^verbatim>\<open>prev_state\<close> and \<^verbatim>\<open>prev_action\<close>: after
  \<^verbatim>\<open>start(0)\<close> has recorded \<open>(0, 0)\<close>, the call \<^verbatim>\<open>step(1, 1)\<close> returns action 0
  and leaves the memory at \<open>(0, 0)\<close>, and the following call \<^verbatim>\<open>step(2, 1)\<close> writes
  \<^verbatim>\<open>Q[0, 0]\<close> again (0.1 becomes 0.19), not \<^verbatim>\<open>Q[1, 0]\<close>, the state and action of the
  preceding \<^verbatim>\<open>step\<close> call.
\<close>

theorem QLearningAgent_step_keeps_start_memory:
  "QLearningAgent_start agent_zero 0 = (Inr 0, agent_started) \<and>
   QLearningAgent_step agent_started 1 1 = (Inr (0, False), agent_stepped) \<and>
   prev_state agent_stepped = Some 0 \<and> prev_action agent_stepped = Some 0 \<and>
   QLearningAgent_step agent_stepped 2 1 =
     (Inr (0, False), agent_stepped\<lparr>q := [[19 / 100, 0, 0], [0, 0, 0], [0, 0, 0], [0, 0, 0]]\<rparr>)"
proof -
  have 1: "QLearningAgent_step agent_started 1 1 = (Inr (0, False), agent_stepped)"
    by (simp add: agent_stepped_def agent_started_def QLearningAgent_step_def getitem_def getitem2_def
        setitem2_def norm_index_def zero_table_def epsilon_greedy_def random_sample_zeros randint_def
        td_value_def upt_rec)
  have 2: "prev_state agent_stepped = Some 0 \<and> prev_action agent_stepped = Some 0"
    by (simp add: agent_stepped_def agent_started_def)
  have 3: "QLearningAgent_step agent_stepped 2 1 =
     (Inr (0, False), agent_stepped\<lparr>q := [[19 / 100, 0, 0], [0, 0, 0], [0, 0, 0], [0, 0, 0]]\<rparr>)"
    by (simp add: agent_stepped_def agent_started_def QLearningAgent_step_def getitem_def getitem2_def
        setitem2_def norm_index_def zero_table_def epsilon_greedy_def random_sample_zeros randint_def
        td_value_def upt_rec)
  show ?thesis using start_agent_zero 1 2 3 by simp
qed

section \<open>value_iteration: state values never decrease\<close>

lemma vi_model_rows:
  assumes "vi_model_ok env" "s < 4"
  shows "length (rewards env ! s) = 3" "length (tran_matrix env ! s) = 4"
    "\<forall>p\<in>set (tran_matrix env ! s). 0 \<le> p" "\<forall>r\<in>set (rewards env ! s). 0 \<le> r"
  using assms by (auto simp: vi_model_ok_def list_all_length in_set_conv_nth)

lemma weighted_sum_mono:
  fixes p v w :: "real list"
  assumes "length p = length v" "length v = length w" "\<forall>i<length v. v ! i \<le> w ! i"
    "\<forall>x\<in>set p. 0 \<le> x" "0 \<le> gam"
  shows "sum_list (map2 (\<lambda>pr x. pr * (r + gam * x)) p v) \<le> sum_list (map2 (\<lambda>pr x. pr * (r + gam * x)) p w)"
  using assms
proof (induction p arbitrary: v w)
  case Nil
  then show ?case by simp
next
  case (Cons x p)
  obtain a v' where v: "v = a # v'" using Cons.prems(1) by (cases v) auto
  obtain b w' where w: "w = b # w'" using Cons.prems(2) v by (cases w) auto
  have ab: "a \<le> b" using Cons.prems(3) v w by auto
  have rest: "\<forall>i<length v'. v' ! i \<le> w' ! i" using Cons.prems(3) v w by auto
  have "sum_list (map2 (\<lambda>pr x. pr * (r + gam * x)) p v') \<le> sum_list (map2 (\<lambda>pr x. pr * (r + gam * x)) p w')"
    using Cons.IH[of v' w'] Cons.prems v w rest by simp
  moreover have "x * (r + gam * a) \<le> x * (r + gam * b)"
    using ab Cons.prems(4,5) by (intro mult_left_mono add_left_mono) simp_all
  ultimately show ?case using v w by simp
qed

lemma weighted_sum_nonneg:
  fixes p v :: "real list"
  assumes "\<forall>x\<in>set p. 0 \<le> x" "0 \<le> r"
  shows "0 \<le> sum_list (map2 (\<lambda>pr x. pr * (r + gam * x)) p (replicate n 0))"
proof -
  have "\<forall>y\<in>set (map2 (\<lambda>pr x. pr * (r + gam * x)) p (replicate n 0)). 0 \<le> y"
    using assms by (auto simp: set_zip)
  then show ?thesis by (intro sum_list_nonneg) blast
qed

lemma backup_mono:
  assumes ok: "vi_model_ok env" and s: "s < 4" and gam: "0 \<le> gam"
    and len: "length v = 4" "length w = 4" and le: "\<forall>i<4. v ! i \<le> w ! i"
  shows "backup env gam v s \<le> backup env gam w s"
proof -
  note rows = vi_model_rows[OF ok s]
  have "\<And>r. sum_list (map2 (\<lambda>pr x. pr * (r + gam * x)) (tran_matrix env ! s) v)
           \<le> sum_list (map2 (\<lambda>pr x. pr * (r + gam * x)) (tran_matrix env ! s) w)"
    by (rule weighted_sum_mono) (use rows len le gam in simp_all)
  then show ?thesis by (simp add: backup_def) (meson max.coboundedI1 max.coboundedI2 max.mono)
qed

lemma action_values_ok:
  assumes ok: "vi_model_ok env" and s: "0 \<le> s" "s < 4" and len: "length v = 4"
  shows "action_values env gam v s actions =
           Inr (map (\<lambda>a. sum_list (map2 (\<lambda>pr x. pr * (rewards env ! nat s ! a + gam * x))
                                      (tran_matrix env ! nat s) v)) [0, 1, 2])"
proof -
  have sn: "nat s < 4" using s by simp
  note rows = vi_model_rows[OF ok sn]
  have lens: "length (rewards env) = 4" "length (tran_matrix env) = 4"
    using ok by (auto simp: vi_model_ok_def)
  have t: "getitem (tran_matrix env) s = Inr (tran_matrix env ! nat s)"
    using s lens by (simp add: getitem_state)
  have r: "getitem (rewards env) s = Inr (rewards env ! nat s)"
    using s lens by (simp add: getitem_state)
  have a: "getitem (rewards env ! nat s) 0 = Inr (rewards env ! nat s ! 0)"
    "getitem (rewards env ! nat s) 1 = Inr (rewards env ! nat s ! 1)"
    "getitem (rewards env ! nat s) 2 = Inr (rewards env ! nat s ! 2)"
    using rows(1) by (simp_all add: getitem_def)
  show ?thesis using rows(2) len by (simp add: actions_def t r a)
qed

lemma update_state_ok:
  assumes ok: "vi_model_ok env" and s: "0 \<le> s" "s < 4" and len: "length v = 4"
  shows "update_state env gam (d, v) s =
           Inr (max d \<bar>v ! nat s - backup env gam v (nat s)\<bar>, v[nat s := backup env gam v (nat s)])"
proof -
  have g: "getitem v s = Inr (v ! nat s)" using s len by (simp add: getitem_state)
  show ?thesis
    by (simp add: update_state_def g action_values_ok[OF ok s len] backup_def norm_index_nonneg[OF s(1)])
qed

lemma vi_inv_zero:
  assumes ok: "vi_model_ok env"
  shows "vi_inv env gam (replicate 4 0)"
proof -
  have "\<And>s. s < 4 \<Longrightarrow> 0 \<le> backup env gam (replicate 4 0) s"
  proof -
    fix s :: nat
    assume s: "s < 4"
    note rows = vi_model_rows[OF ok s]
    have "rewards env ! s ! 0 \<in> set (rewards env ! s)" using rows(1) by (intro nth_mem) simp
    then have "0 \<le> rewards env ! s ! 0" using rows(4) by blast
    then have "0 \<le> sum_list (map2 (\<lambda>pr x. pr * (rewards env ! s ! 0 + gam * x)) (tran_matrix env ! s) (replicate 4 0))"
      using rows(3) by (intro weighted_sum_nonneg) simp_all
    then show "0 \<le> backup env gam (replicate 4 0) s"
      by (simp add: backup_def max.coboundedI1)
  qed
  then show ?thesis by (simp add: vi_inv_def)
qed

lemma vi_inv_update:
  assumes ok: "vi_model_ok env" and gam: "0 \<le> gam" and inv: "vi_inv env gam v" and s: "s < 4"
  shows "vi_inv env gam (v[s := backup env gam v s])" and "\<forall>t<4. v ! t \<le> v[s := backup env gam v s] ! t"
proof -
  let ?w = "v[s := backup env gam v s]"
  have len: "length v = 4" and below: "\<forall>t<4. v ! t \<le> backup env gam v t"
    using inv by (auto simp: vi_inv_def)
  show le: "\<forall>t<4. v ! t \<le> ?w ! t"
    using below len s by (auto simp: nth_list_update)
  have lw: "length ?w = 4" using len by simp
  have mono: "\<And>t. t < 4 \<Longrightarrow> backup env gam v t \<le> backup env gam ?w t"
    by (rule backup_mono[OF ok _ gam len lw le])
  have "\<forall>t<4. ?w ! t \<le> backup env gam ?w t"
  proof (intro allI impI)
    fix t :: nat
    assume t: "t < 4"
    show "?w ! t \<le> backup env gam ?w t"
    proof (cases "t = s")
      case True
      then show ?thesis using mono[OF t] len t by simp
    next
      case False
      then have "?w ! t = v ! t" by simp
      then show ?thesis using below mono[OF t] t by fastforce
    qed
  qed
  then show "vi_inv env gam ?w" using lw by (simp add: vi_inv_def)
qed

lemma sweep_states_ok:
  assumes ok: "vi_model_ok env" and gam: "0 \<le> gam"
  shows "vi_inv env gam v \<Longrightarrow> list_all (\<lambda>s. 0 \<le> s \<and> s < 4) ss \<Longrightarrow>
         \<exists>d' v'. sweep_states env gam (d, v) ss = Inr (d', v') \<and> vi_inv env gam v' \<and>
                 (\<forall>t<4. v ! t \<le> v' ! t)"
proof (induction ss arbitrary: d v)
  case Nil
  then show ?case by simp
next
  case (Cons s ss)
  have s: "0 \<le> s" "s < 4" and rest: "list_all (\<lambda>s. 0 \<le> s \<and> s < 4) ss" using Cons.prems(2) by auto
  have len: "length v = 4" using Cons.prems(1) by (simp add: vi_inv_def)
  let ?w = "v[nat s := backup env gam v (nat s)]"
  let ?d = "max d \<bar>v ! nat s - backup env gam v (nat s)\<bar>"
  have up: "update_state env gam (d, v) s = Inr (?d, ?w)" by (rule update_state_ok[OF ok s len])
  have sn: "nat s < 4" using s by simp
  note u = vi_inv_update[OF ok gam Cons.prems(1) sn]
  obtain d' v' where sw: "sweep_states env gam (?d, ?w) ss = Inr (d', v')" "vi_inv env gam v'"
      "\<forall>t<4. ?w ! t \<le> v' ! t"
    using Cons.IH[OF u(1) rest, of ?d] by blast
  have "\<forall>t<4. v ! t \<le> v' ! t" using u(2) sw(3) by fastforce
  then show ?case using up sw(1,2) by simp
qed

lemma sweep_states_snoc:
  "sweep_states env gam st (ss @ [s]) =
     (case sweep_states env gam st ss of Inl e \<Rightarrow> Inl e | Inr st' \<Rightarrow> update_state env gam st' s)"
  by (induction ss arbitrary: st) (auto split: sum.splits)

lemma vi_iter_inv:
  assumes ok: "vi_model_ok env" and gam: "0 \<le> gam"
  shows "\<exists>v. vi_iter env gam n = Inr v \<and> vi_inv env gam v"
proof (induction n)
  case 0
  show ?case using vi_inv_zero[OF ok] by simp
next
  case (Suc n)
  then obtain v where v: "vi_iter env gam n = Inr v" "vi_inv env gam v" by blast
  have g: "list_all (\<lambda>s. 0 \<le> s \<and> s < 4) (grid env)" using ok by (simp add: vi_model_ok_def)
  obtain d' v' where "sweep_states env gam (0, v) (grid env) = Inr (d', v')" "vi_inv env gam v'"
    using sweep_states_ok[OF ok gam v(2) g, of 0] by blast
  then show ?case using v(1) by simp
qed

lemma vi_while_returns_iterate:
  assumes "vi_while env theta gam st = Some res"
  shows "\<forall>n v. vi_iter env gam n = Inr (snd st) \<longrightarrow> res = Inr v \<longrightarrow> (\<exists>m. vi_iter env gam m = Inr v)"
proof (rule vi_while.raw_induct[where P = "\<lambda>env theta gam st res.
    \<forall>n v. vi_iter env gam n = Inr (snd st) \<longrightarrow> res = Inr v \<longrightarrow> (\<exists>m. vi_iter env gam m = Inr v)", OF _ assms])
  fix f :: "environment \<Rightarrow> real \<Rightarrow> real \<Rightarrow> real \<times> real list \<Rightarrow> (error + real list) option"
  fix env theta gam st res
  assume IH: "\<And>env theta gam st res. f env theta gam st = Some res \<Longrightarrow>
    \<forall>n v. vi_iter env gam n = Inr (snd st) \<longrightarrow> res = Inr v \<longrightarrow> (\<exists>m. vi_iter env gam m = Inr v)"
  assume body: "(if theta < fst st
      then case sweep_states env gam (0, snd st) (grid env) of
           Inl e \<Rightarrow> Some (Inl e) | Inr st' \<Rightarrow> f env theta gam st'
      else Some (Inr (snd st))) = Some res"
  show "\<forall>n v. vi_iter env gam n = Inr (snd st) \<longrightarrow> res = Inr v \<longrightarrow> (\<exists>m. vi_iter env gam m = Inr v)"
  proof (intro allI impI)
    fix n v
    assume it: "vi_iter env gam n = Inr (snd st)" and res: "res = Inr v"
    show "\<exists>m. vi_iter env gam m = Inr v"
    proof (cases "theta < fst st")
      case False
      then have "v = snd st" using body res by simp
      then show ?thesis using it by blast
    next
      case True
      show ?thesis
      proof (cases "sweep_states env gam (0, snd st) (grid env)")
        case (Inl e)
        then show ?thesis using body True res by simp
      next
        case (Inr st')
        then have call: "f env theta gam st' = Some res" using body True by simp
        have "vi_iter env gam (Suc n) = Inr (snd st')" using it Inr by simp
        then show ?thesis using IH[OF call] res by blast
      qed
    qed
  qed
qed

lemma value_iteration_returns_iterate:
  assumes "value_iteration g theta gam = Some (Inr v)"
  shows "\<exists>n. vi_iter (ExampleEnvironment_init g) gam n = Inr v"
proof -
  have "vi_iter (ExampleEnvironment_init g) gam 0 = Inr (snd (theta * 10, replicate 4 (0::real)))"
    by simp
  then show ?thesis
    using vi_while_returns_iterate[OF assms[unfolded value_iteration_def]] by blast
qed

lemma example_model_ok: "vi_model_ok (ExampleEnvironment_init g)"
  by (simp add: vi_model_ok_def ExampleEnvironment_init_def
      rewards_table_def tran_matrix_table_def)

text \<open>
  C5. In \<^verbatim>\<open>value_iteration\<close>, with non-negative rewards (and non-negative transition
  entries and discount), starting from \<^verbatim>\<open>np.zeros(4)\<close>: the table \<open>v\<close> held after
  \<open>n\<close> passes of the \<^verbatim>\<open>while\<close> body exists, and in the next pass every single
  assignment \<^verbatim>\<open>s_vals[s] = np.max(vals)\<close> (the step from the first \<open>k\<close> states of the
  grid to the first \<open>k + 1\<close>) leaves each entry at least as large as before; so the
  table after pass \<open>n + 1\<close> dominates the table after pass \<open>n\<close> entry by entry.
\<close>

theorem value_iteration_values_never_decrease:
  assumes "vi_model_ok env" and "0 \<le> gam"
  shows "\<exists>v. vi_iter env gam n = Inr v \<and> length v = 4 \<and>
           (\<forall>k<4. \<exists>d w d' w'.
              sweep_states env gam (0, v) (take k (grid env)) = Inr (d, w) \<and>
              sweep_states env gam (0, v) (take (Suc k) (grid env)) = Inr (d', w') \<and>
              (\<forall>t<4. w ! t \<le> w' ! t)) \<and>
           (\<exists>v'. vi_iter env gam (Suc n) = Inr v' \<and> (\<forall>t<4. v ! t \<le> v' ! t))"
proof -
  obtain v where v: "vi_iter env gam n = Inr v" "vi_inv env gam v"
    using vi_iter_inv[OF assms] by blast
  have len: "length v = 4" using v(2) by (simp add: vi_inv_def)
  have grid: "grid env = [0, 1, 2, 3]" using assms(1) by (simp add: vi_model_ok_def)
  have g: "list_all (\<lambda>s. 0 \<le> s \<and> s < 4) (grid env)" using grid by simp
  have per: "\<forall>k<4. \<exists>d w d' w'.
              sweep_states env gam (0, v) (take k (grid env)) = Inr (d, w) \<and>
              sweep_states env gam (0, v) (take (Suc k) (grid env)) = Inr (d', w') \<and>
              (\<forall>t<4. w ! t \<le> w' ! t)"
  proof (intro allI impI)
    fix k :: nat
    assume k: "k < 4"
    have pre: "list_all (\<lambda>s. 0 \<le> s \<and> s < 4) (take k (grid env))"
      using g by (auto simp: list_all_iff dest: in_set_takeD)
    obtain d w where w: "sweep_states env gam (0, v) (take k (grid env)) = Inr (d, w)"
        "vi_inv env gam w"
      using sweep_states_ok[OF assms v(2) pre, of 0] by blast
    have sk: "0 \<le> grid env ! k" "grid env ! k < 4"
      using g k grid by (auto simp: list_all_length)
    have "k < length (grid env)" using k grid by simp
    then have tk: "take (Suc k) (grid env) = take k (grid env) @ [grid env ! k]"
      by (rule take_Suc_conv_app_nth)
    have lw: "length w = 4" using w(2) by (simp add: vi_inv_def)
    let ?s = "nat (grid env ! k)"
    have up: "update_state env gam (d, w) (grid env ! k) =
        Inr (max d \<bar>w ! ?s - backup env gam w ?s\<bar>, w[?s := backup env gam w ?s])"
      by (rule update_state_ok[OF assms(1) sk lw])
    have sn: "?s < 4" using sk by simp
    have "\<forall>t<4. w ! t \<le> w[?s := backup env gam w ?s] ! t"
      by (rule vi_inv_update(2)[OF assms w(2) sn])
    moreover have "sweep_states env gam (0, v) (take (Suc k) (grid env)) =
        Inr (max d \<bar>w ! ?s - backup env gam w ?s\<bar>, w[?s := backup env gam w ?s])"
      by (simp only: tk sweep_states_snoc w(1) up sum.case)
    ultimately show "\<exists>d w d' w'.
              sweep_states env gam (0, v) (take k (grid env)) = Inr (d, w) \<and>
              sweep_states env gam (0, v) (take (Suc k) (grid env)) = Inr (d', w') \<and>
              (\<forall>t<4. w ! t \<le> w' ! t)"
      using w(1) by blast
  qed
  obtain d' v' where sw: "sweep_states env gam (0, v) (grid env) = Inr (d', v')"
      "\<forall>t<4. v ! t \<le> v' ! t"
    using sweep_states_ok[OF assms v(2) g, of 0] by blast
  have "vi_iter env gam (Suc n) = Inr v'" using v(1) sw(1) by simp
  then show ?thesis using v(1) len per sw(2) by blast
qed

text \<open>
  C5 at a concrete run: the environment of the notebook, discount 0.9, the first pass.
\<close>

theorem value_iteration_values_never_decrease_witness:
  "vi_model_ok (ExampleEnvironment_init zeros) \<and> (0::real) \<le> 9 / 10 \<and>
   vi_iter (ExampleEnvironment_init zeros) (9 / 10) 0 = Inr [0, 0, 0, 0] \<and>
   vi_iter (ExampleEnvironment_init zeros) (9 / 10) (Suc 0) =
     Inr [2, 29 / 20, 1061 / 800, 105549 / 32000] \<and>
   (\<exists>v'. vi_iter (ExampleEnvironment_init zeros) (9 / 10) (Suc 0) = Inr v' \<and>
      (\<forall>t<4. [0, 0, 0, 0] ! t \<le> v' ! t))"
proof -
  have ok: "vi_model_ok (ExampleEnvironment_init zeros)" by (rule example_model_ok)
  have g: "(0::real) \<le> 9 / 10" by simp
  have z: "vi_iter (ExampleEnvironment_init zeros) (9 / 10) 0 = Inr [0, 0, 0, 0]"
    by (simp add: numeral_eq_Suc)
  have s: "sweep_states (ExampleEnvironment_init zeros) (9 / 10) (0, [0, 0, 0, 0]) [0, 1, 2, 3] =
      Inr (105549 / 32000, [2, 29 / 20, 1061 / 800, 105549 / 32000])"
    by (simp add: ExampleEnvironment_init_def rewards_table_def
        tran_matrix_table_def update_state_def actions_def getitem_def norm_index_def)
  have o: "vi_iter (ExampleEnvironment_init zeros) (9 / 10) (Suc 0) =
     Inr [2, 29 / 20, 1061 / 800, 105549 / 32000]"
    using s by (simp add: numeral_eq_Suc ExampleEnvironment_init_def)
  show ?thesis
    using ok g z o value_iteration_values_never_decrease[OF ok g, of 0] by auto
qed

section \<open>QLearningAgent: the convergence flag\<close>

lemma td_value_fl_exact: "td_value_fl exact_arith a cur r x = td_value a cur r x"
  by (simp add: td_value_fl_def td_value_def exact_arith_def)

lemma max_over_actions_fl_exact:
  "max_over_actions_fl exact_arith a cur r row acts v = max_over_actions a cur r row acts v"
  by (induction acts arbitrary: v) (simp_all add: td_value_fl_exact split: sum.splits)

lemma QLearningAgent_step_fl_exact:
  "QLearningAgent_step_fl exact_arith a state reward = QLearningAgent_step a state reward"
proof -
  have 1: "max_over_actions_fl exact_arith = max_over_actions"
    by (intro ext) (rule max_over_actions_fl_exact)
  have 2: "fl_sub exact_arith = (-)" by (simp add: exact_arith_def)
  show ?thesis unfolding QLearningAgent_step_fl_def QLearningAgent_step_def 1 2 by (rule refl)
qed

lemma uniform_fl_exact: "uniform_fl exact_arith low high g = uniform low high g"
  by (simp add: uniform_fl_def uniform_def exact_arith_def)

lemma uniform_row_fl_exact: "uniform_row_fl exact_arith low high n g = uniform_row low high n g"
  by (induction n arbitrary: g) (simp_all add: uniform_fl_exact)

lemma uniform_table_fl_exact:
  "uniform_table_fl exact_arith low high m cols g = uniform_table low high m cols g"
  by (induction m arbitrary: g) (simp_all add: uniform_row_fl_exact)

lemma QLearningAgent_init_fl_exact:
  "QLearningAgent_init_fl exact_arith agent_info g = QLearningAgent_init agent_info g"
  by (simp add: QLearningAgent_init_fl_def QLearningAgent_init_def uniform_table_fl_exact)

lemma uniform_row_fl_length: "length (fst (uniform_row_fl ar low high n g)) = n"
  by (induction n arbitrary: g) (auto simp: split_def Let_def)

lemma uniform_table_fl_shape:
  "length (fst (uniform_table_fl ar low high m cols g)) = m \<and>
   list_all (\<lambda>row. length row = cols) (fst (uniform_table_fl ar low high m cols g))"
  by (induction m arbitrary: g) (auto simp: split_def Let_def uniform_row_fl_length)

lemma agent_init_fl_inv: "agent_inv (QLearningAgent_init_fl ar agent_info g)"
  using uniform_table_fl_shape[of ar 0 "1 / 10" 4 3 g]
  by (simp add: agent_inv_def QLearningAgent_init_fl_def split_def Let_def)

lemma max_over_actions_fl_fold:
  assumes "\<forall>act\<in>set acts. act < length row"
  shows "max_over_actions_fl ar a cur r row acts v =
           Inr (foldl (\<lambda>m act. max m (td_value_fl ar a cur r (row ! act))) v acts)"
  using assms by (induction acts arbitrary: v) (auto simp: getitem_nat)

lemma max_over_actions_fl_3:
  assumes "length row = 3"
  shows "max_over_actions_fl ar a cur r row [0..<3] v =
           Inr (max (max (max v (td_value_fl ar a cur r (row ! 0))) (td_value_fl ar a cur r (row ! 1)))
                    (td_value_fl ar a cur r (row ! 2)))"
proof -
  have "[0..<3] = [0, 1, 2::nat]" by (simp add: upt_rec)
  then show ?thesis using max_over_actions_fl_fold[of "[0..<3]" row ar a cur r v] assms by simp
qed

lemma step_fl_explicit:
  fixes reward :: real and state :: int and ar :: arith
  assumes inv: "agent_inv a" and ps: "prev_state a = Some ps" and pa: "prev_action a = Some pa"
    and st: "- 4 \<le> state" "state < 4"
  defines "row \<equiv> q a ! norm_index 4 state"
    and "cur \<equiv> q a ! norm_index 4 ps ! norm_index 3 pa"
  defines "nv \<equiv> max (max (max (- 100000000) (td_value_fl ar a cur reward (row ! 0)))
                         (td_value_fl ar a cur reward (row ! 1))) (td_value_fl ar a cur reward (row ! 2))"
  shows "\<exists>act. epsilon_greedy a row = (Inr act, stl (stl (rand_generator_agent a))) \<and>
           QLearningAgent_step_fl ar a state reward =
             (Inr (act, \<bar>fl_sub ar nv cur\<bar> < delta a),
              a\<lparr>rand_generator_agent := stl (stl (rand_generator_agent a)),
                q := (q a)[norm_index 4 ps := (q a ! norm_index 4 ps)[norm_index 3 pa := nv]]\<rparr>)"
proof -
  have len: "length (q a) = 4" and na: "num_actions a = 3" using inv by (auto simp: agent_inv_def)
  have mem: "- 4 \<le> ps" "ps < 4" "0 \<le> pa" "pa < 3" using inv ps pa by (auto simp: agent_inv_def)
  have g1: "getitem (q a) state = Inr row"
    using getitem_in_range[of "q a" state] st len by (simp add: row_def)
  have rl: "length row = 3" unfolding row_def
    by (rule agent_inv_row[OF inv]) (use norm_index_less[of 4 state] st in simp)
  obtain act where act: "epsilon_greedy a row = (Inr act, stl (stl (rand_generator_agent a)))"
    using epsilon_greedy_ok[OF na rl] by blast
  have pl: "length (q a ! norm_index 4 ps) = 3"
    by (rule agent_inv_row[OF inv]) (use norm_index_less[of 4 ps] mem in simp)
  have "getitem (q a) ps = Inr (q a ! norm_index 4 ps)"
    using getitem_in_range[of "q a" ps] mem len by simp
  moreover have "getitem (q a ! norm_index 4 ps) pa = Inr cur"
    using getitem_in_range[of "q a ! norm_index 4 ps" pa] mem pl by (simp add: cur_def)
  ultimately have g2: "getitem2 (q a) ps pa = Inr cur" by (simp add: getitem2_def)
  have mx: "max_over_actions_fl ar a cur reward row [0..<num_actions a] (- 100000000) = Inr nv"
    using max_over_actions_fl_3[OF rl, of ar a cur reward "- 100000000"] by (simp add: na nv_def)
  have set: "setitem2 (q a) ps pa nv = (q a)[norm_index 4 ps := (q a ! norm_index 4 ps)[norm_index 3 pa := nv]]"
    by (simp add: setitem2_def Let_def len pl)
  have "QLearningAgent_step_fl ar a state reward =
             (Inr (act, \<bar>fl_sub ar nv cur\<bar> < delta a),
              a\<lparr>rand_generator_agent := stl (stl (rand_generator_agent a)),
                q := (q a)[norm_index 4 ps := (q a ! norm_index 4 ps)[norm_index 3 pa := nv]]\<rparr>)"
    by (simp add: QLearningAgent_step_fl_def g1 act ps pa g2 mx set)
  then show ?thesis using act by blast
qed

lemma step_fl_failure_state:
  assumes "length (q a) = 4" "\<not> (- 4 \<le> state \<and> state < 4)"
  shows "QLearningAgent_step_fl ar a state reward = (Inl IndexError, a)"
  using assms by (auto simp: QLearningAgent_step_fl_def getitem_def)

lemma step_fl_failure_memory:
  assumes inv: "agent_inv a" and mem: "prev_state a = None" and st: "- 4 \<le> state" "state < 4"
  shows "QLearningAgent_step_fl ar a state reward =
           (Inl ValueError, a\<lparr>rand_generator_agent := stl (stl (rand_generator_agent a))\<rparr>)"
proof -
  have len: "length (q a) = 4" and na: "num_actions a = 3" using inv by (auto simp: agent_inv_def)
  have pa: "prev_action a = None" using inv mem by (auto simp: agent_inv_def split: option.splits)
  let ?row = "q a ! norm_index 4 state"
  have g1: "getitem (q a) state = Inr ?row"
    using getitem_in_range[of "q a" state] st len by simp
  have rl: "length ?row = 3"
    by (rule agent_inv_row[OF inv]) (use norm_index_less[of 4 state] st in simp)
  obtain act where act: "epsilon_greedy a ?row = (Inr act, stl (stl (rand_generator_agent a)))"
    using epsilon_greedy_ok[OF na rl] by blast
  show ?thesis by (simp add: QLearningAgent_step_fl_def g1 act mem pa)
qed

lemma step_fl_preserves:
  assumes inv: "agent_inv a" and call: "QLearningAgent_step_fl ar a state reward = (res, a')"
  shows "agent_inv a'"
proof (cases "- 4 \<le> state \<and> state < 4")
  case False
  have "length (q a) = 4" using inv by (simp add: agent_inv_def)
  then show ?thesis using step_fl_failure_state[OF _ False, of a ar reward] call inv by simp
next
  case True
  show ?thesis
  proof (cases "prev_state a")
    case None
    then show ?thesis using step_fl_failure_memory[OF inv None, of state ar reward] True call inv
      by (auto simp: agent_inv_def)
  next
    case (Some ps)
    then obtain pa where pa: "prev_action a = Some pa"
      using inv by (auto simp: agent_inv_def split: option.splits)
    obtain act fl nv r c where
      "QLearningAgent_step_fl ar a state reward =
             (Inr (act, fl),
              a\<lparr>rand_generator_agent := stl (stl (rand_generator_agent a)),
                q := (q a)[r := (q a ! r)[c := nv]]\<rparr>)"
      using step_fl_explicit[OF inv Some pa, of state ar reward] True by blast
    then have "a' = a\<lparr>rand_generator_agent := stl (stl (rand_generator_agent a)),
                q := (q a)[r := (q a ! r)[c := nv]]\<rparr>" using call by simp
    then show ?thesis using agent_inv_update[OF inv] by simp
  qed
qed

lemma agent_reachable_fl_inv: "agent_reachable_fl ar a \<Longrightarrow> agent_inv a"
proof (induction rule: agent_reachable_fl.induct)
  case (constructed ar agent_info g)
  show ?case by (rule agent_init_fl_inv)
next
  case (started ar a state out a')
  then show ?case using start_preserves by blast
next
  case (stepped ar a state reward res a')
  then show ?case using step_fl_preserves by blast
qed

lemma uniform_row_fl_zeros:
  "uniform_row_fl exact_arith low high n zeros = (replicate n low, zeros)"
  by (induction n) (simp_all add: uniform_fl_def random_sample_zeros exact_arith_def)

lemma uniform_table_fl_zeros:
  "uniform_table_fl exact_arith low high m cols zeros = (replicate m (replicate cols low), zeros)"
  by (induction m) (simp_all add: uniform_row_fl_zeros)

lemma init_dyadic:
  "QLearningAgent_init_fl exact_arith dyadic_info zeros =
     \<lparr>num_actions = 3, num_states = 4, discount = 1 / 2, step_size = 1 / 2, epsilon = 1 / 2,
      delta = 1 / 4, rand_generator_agent = zeros, q = zero_table,
      prev_state = None, prev_action = None\<rparr>"
proof -
  have t: "uniform_table_fl exact_arith 0 (1 / 10) 4 3 zeros = (replicate 4 (replicate 3 0), zeros)"
    by (rule uniform_table_fl_zeros)
  have r: "replicate 4 (replicate 3 (0::real)) = zero_table"
    by (simp add: zero_table_def numeral_eq_Suc)
  show ?thesis
    by (simp add: QLearningAgent_init_fl_def t r get_default_def dyadic_info_def)
qed

lemma start_dyadic:
  "QLearningAgent_start (QLearningAgent_init_fl exact_arith dyadic_info zeros) 0 = (Inr 0, agent_dyadic)"
  by (simp add: init_dyadic agent_dyadic_def QLearningAgent_start_def getitem_def zero_table_def
      epsilon_greedy_def random_sample_zeros randint_def)

lemma agent_dyadic_reachable: "agent_reachable_fl exact_arith agent_dyadic"
  using agent_reachable_fl.constructed[of exact_arith dyadic_info zeros] start_dyadic
    agent_reachable_fl.started by blast

text \<open>
  C3. Whatever the rounding of the arithmetic, for every agent the class can reach whose
  memory is \<open>(ps, pa)\<close> and every state in 0..3, \<^verbatim>\<open>step(state, reward)\<close> succeeds;
  the value \<open>new_val\<close> it writes is the maximum of \<^verbatim>\<open>-1e8\<close> and the three
  candidates computed from \<open>cur\<close>, the value of \<^verbatim>\<open>Q[ps, pa]\<close> before the call; it is
  written to \<^verbatim>\<open>Q[ps, pa]\<close> and to no other entry; and the flag returned is true
  exactly when \<^verbatim>\<open>abs(new_val - cur) < delta\<close>, the subtraction being the machine's.
  The action returned is the one the epsilon-greedy selection draws.
\<close>

theorem QLearningAgent_step_converged_flag:
  assumes "agent_reachable_fl ar a" and "prev_state a = Some ps" and "prev_action a = Some pa"
    and "0 \<le> ps" and "0 \<le> state" and "state < 4"
  shows "\<exists>action new_val a'.
           QLearningAgent_step_fl ar a state reward =
             (Inr (action, \<bar>fl_sub ar new_val (q a ! nat ps ! nat pa)\<bar> < delta a), a') \<and>
           new_val =
             max (max (max (- 100000000)
                    (td_value_fl ar a (q a ! nat ps ! nat pa) reward (q a ! nat state ! 0)))
                    (td_value_fl ar a (q a ! nat ps ! nat pa) reward (q a ! nat state ! 1)))
                    (td_value_fl ar a (q a ! nat ps ! nat pa) reward (q a ! nat state ! 2)) \<and>
           a' = a\<lparr>rand_generator_agent := stl (stl (rand_generator_agent a)),
                  q := (q a)[nat ps := (q a ! nat ps)[nat pa := new_val]]\<rparr> \<and>
           q a' ! nat ps ! nat pa = new_val \<and>
           epsilon_greedy a (q a ! nat state) = (Inr action, stl (stl (rand_generator_agent a)))"
proof -
  have inv: "agent_inv a" using assms(1) by (rule agent_reachable_fl_inv)
  have mem: "ps < 4" "0 \<le> pa" "pa < 3" using inv assms(2,3) by (auto simp: agent_inv_def)
  have len: "length (q a) = 4" using inv by (simp add: agent_inv_def)
  have rl: "length (q a ! nat ps) = 3"
    by (rule agent_inv_row[OF inv]) (use assms(4) mem in simp)
  have st: "- 4 \<le> state" using assms(5) by simp
  have idx: "norm_index 4 ps = nat ps" "norm_index 3 pa = nat pa" "norm_index 4 state = nat state"
    using assms(4,5) mem by (simp_all add: norm_index_nonneg)
  let ?cur = "q a ! nat ps ! nat pa"
  let ?row = "q a ! nat state"
  let ?nv = "max (max (max (- 100000000) (td_value_fl ar a ?cur reward (?row ! 0)))
                         (td_value_fl ar a ?cur reward (?row ! 1))) (td_value_fl ar a ?cur reward (?row ! 2))"
  let ?a' = "a\<lparr>rand_generator_agent := stl (stl (rand_generator_agent a)),
                  q := (q a)[nat ps := (q a ! nat ps)[nat pa := ?nv]]\<rparr>"
  obtain act where act: "epsilon_greedy a ?row = (Inr act, stl (stl (rand_generator_agent a)))"
    and step: "QLearningAgent_step_fl ar a state reward = (Inr (act, \<bar>fl_sub ar ?nv ?cur\<bar> < delta a), ?a')"
    using step_fl_explicit[OF inv assms(2) assms(3) st assms(6), of ar reward] unfolding idx by blast
  have wr: "q ?a' ! nat ps ! nat pa = ?nv" using len rl assms(4) mem by simp
  show ?thesis
    by (intro exI[of _ act] exI[of _ ?nv] exI[of _ ?a'] conjI step refl wr act)
qed

text \<open>
  C3 at two concrete runs of \<open>agent_dyadic\<close>: \<^verbatim>\<open>step(0, 0.25)\<close> writes 1/8 and returns
  the flag true (1/8 < 1/4); \<^verbatim>\<open>step(0, 1.0)\<close> writes 1/2 and returns the flag false.
\<close>

theorem QLearningAgent_step_converged_flag_witness:
  "agent_reachable_fl exact_arith agent_dyadic \<and>
   prev_state agent_dyadic = Some 0 \<and> prev_action agent_dyadic = Some 0 \<and>
   QLearningAgent_step_fl exact_arith agent_dyadic 0 (1 / 4) =
     (Inr (0, True), agent_dyadic\<lparr>q := [[1 / 8, 0, 0], [0, 0, 0], [0, 0, 0], [0, 0, 0]]\<rparr>) \<and>
   QLearningAgent_step_fl exact_arith agent_dyadic 0 1 =
     (Inr (0, False), agent_dyadic\<lparr>q := [[1 / 2, 0, 0], [0, 0, 0], [0, 0, 0], [0, 0, 0]]\<rparr>)"
proof -
  have m: "prev_state agent_dyadic = Some 0" "prev_action agent_dyadic = Some 0"
    by (simp_all add: agent_dyadic_def)
  have e: "epsilon_greedy agent_dyadic (q agent_dyadic ! nat 0) = (Inr 0, zeros)"
    by (simp add: agent_dyadic_def zero_table_def epsilon_greedy_def random_sample_zeros randint_def)
  have v1: "max (max (max (- 100000000)
                    (td_value_fl exact_arith agent_dyadic (q agent_dyadic ! nat 0 ! nat 0) (1 / 4) (q agent_dyadic ! nat 0 ! 0)))
                    (td_value_fl exact_arith agent_dyadic (q agent_dyadic ! nat 0 ! nat 0) (1 / 4) (q agent_dyadic ! nat 0 ! 1)))
                    (td_value_fl exact_arith agent_dyadic (q agent_dyadic ! nat 0 ! nat 0) (1 / 4) (q agent_dyadic ! nat 0 ! 2)) = 1 / 8"
    by (simp add: agent_dyadic_def zero_table_def td_value_fl_def exact_arith_def)
  have v2: "max (max (max (- 100000000)
                    (td_value_fl exact_arith agent_dyadic (q agent_dyadic ! nat 0 ! nat 0) 1 (q agent_dyadic ! nat 0 ! 0)))
                    (td_value_fl exact_arith agent_dyadic (q agent_dyadic ! nat 0 ! nat 0) 1 (q agent_dyadic ! nat 0 ! 1)))
                    (td_value_fl exact_arith agent_dyadic (q agent_dyadic ! nat 0 ! nat 0) 1 (q agent_dyadic ! nat 0 ! 2)) = 1 / 2"
    by (simp add: agent_dyadic_def zero_table_def td_value_fl_def exact_arith_def)
  have c: "q agent_dyadic ! nat 0 ! nat 0 = 0" "delta agent_dyadic = 1 / 4"
    "fl_sub exact_arith = (-)" "rand_generator_agent agent_dyadic = zeros"
    "q agent_dyadic = zero_table"
    by (simp_all add: agent_dyadic_def zero_table_def exact_arith_def)
  have r1: "QLearningAgent_step_fl exact_arith agent_dyadic 0 (1 / 4) =
     (Inr (0, True), agent_dyadic\<lparr>q := [[1 / 8, 0, 0], [0, 0, 0], [0, 0, 0], [0, 0, 0]]\<rparr>)"
    using QLearningAgent_step_converged_flag[OF agent_dyadic_reachable m, of 0 "1 / 4"]
    unfolding v1 e by (auto simp: c zero_table_def agent_dyadic_def)
  have r2: "QLearningAgent_step_fl exact_arith agent_dyadic 0 1 =
     (Inr (0, False), agent_dyadic\<lparr>q := [[1 / 2, 0, 0], [0, 0, 0], [0, 0, 0], [0, 0, 0]]\<rparr>)"
    using QLearningAgent_step_converged_flag[OF agent_dyadic_reachable m, of 0 1]
    unfolding v2 e by (auto simp: c zero_table_def agent_dyadic_def)
  show ?thesis using agent_dyadic_reachable m r1 r2 by simp
qed

text \<open>
  A run in which rounding decides the flag: the agent above and \<^verbatim>\<open>step(0, 0.1)\<close>, the
  reward being the double of \<^verbatim>\<open>0.1\<close>. In IEEE arithmetic adding or subtracting 0
  changes nothing, a product with 0 is 0, and the product of the doubles of \<^verbatim>\<open>0.7\<close>
  and \<^verbatim>\<open>0.1\<close> rounds to \<open>5044031582654955 / 2\<^sup>5\<^sup>6\<close>, one unit in the last place
  below the double of \<^verbatim>\<open>0.07\<close>; so the call writes that product and returns the flag
  true, where the decimal numbers 0.7 * 0.1 and 0.07 are equal.
\<close>

lemma QLearningAgent_step_fl_run_in_doubles:
  assumes "\<And>x. fl_add ar x 0 = x" and "\<And>x. fl_add ar 0 x = x" and "\<And>x. fl_sub ar x 0 = x"
    and "\<And>x. fl_mul ar x 0 = 0"
    and "fl_mul ar (3152519739159347 / 2 ^ 52) (3602879701896397 / 2 ^ 55) = 5044031582654955 / 2 ^ 56"
  shows "QLearningAgent_step_fl ar agent_doubles 0 (3602879701896397 / 2 ^ 55) =
           (Inr (0, True),
            agent_doubles\<lparr>q := [[5044031582654955 / 2 ^ 56, 0, 0], [0, 0, 0], [0, 0, 0], [0, 0, 0]]\<rparr>)"
proof -
  define r :: real where "r = 3602879701896397 / 2 ^ 55"
  define w :: real where "w = 5044031582654955 / 2 ^ 56"
  have ss: "step_size agent_doubles = 3152519739159347 / 2 ^ 52"
    by (simp add: agent_doubles_def)
  have td: "td_value_fl ar agent_doubles 0 r 0 = w"
    unfolding td_value_fl_def assms(1-4) ss r_def w_def by (rule assms(5))
  have wb: "- 100000000 \<le> w" "\<bar>w\<bar> < delta agent_doubles"
    by (simp_all add: w_def agent_doubles_def)
  have mx: "max_over_actions_fl ar agent_doubles 0 r [0, 0, 0] [0, 1, 2] (- 100000000) = Inr w"
    using wb(1) by (simp add: getitem_def td)
  have e: "epsilon_greedy agent_doubles [0, 0, 0] = (Inr 0, zeros)"
    by (simp add: agent_doubles_def epsilon_greedy_def random_sample_zeros randint_def)
  have u: "[0..<num_actions agent_doubles] = [0, 1, 2]"
    by (simp add: agent_doubles_def upt_rec)
  have g1: "getitem (q agent_doubles) 0 = Inr [0, 0, 0]"
    by (simp add: agent_doubles_def zero_table_def getitem_def)
  have g2: "getitem2 (q agent_doubles) 0 0 = Inr 0"
    by (simp add: agent_doubles_def zero_table_def getitem_def getitem2_def)
  have m: "prev_state agent_doubles = Some 0" "prev_action agent_doubles = Some 0"
    by (simp_all add: agent_doubles_def)
  have s: "setitem2 (q agent_doubles) 0 0 w = [[w, 0, 0], [0, 0, 0], [0, 0, 0], [0, 0, 0]]"
    by (simp add: agent_doubles_def zero_table_def setitem2_def norm_index_def)
  have gen: "agent_doubles\<lparr>rand_generator_agent := zeros,
        q := [[w, 0, 0], [0, 0, 0], [0, 0, 0], [0, 0, 0]]\<rparr> =
      agent_doubles\<lparr>q := [[w, 0, 0], [0, 0, 0], [0, 0, 0], [0, 0, 0]]\<rparr>"
    by (simp add: agent_doubles_def)
  have fl: "(\<bar>fl_sub ar w 0\<bar> < delta agent_doubles) = True"
    using wb(2) by (simp add: assms(3))
  have "QLearningAgent_step_fl ar agent_doubles 0 r =
           (Inr (0, True), agent_doubles\<lparr>q := [[w, 0, 0], [0, 0, 0], [0, 0, 0], [0, 0, 0]]\<rparr>)"
    by (simp only: QLearningAgent_step_fl_def g1 e m g2 u mx s gen fl sum.case prod.case
        option.case)
  then show ?thesis unfolding r_def w_def .
qed

end
